theory Spec2Isabelle
  imports Main
begin

section \<open>Values, callbacks and the heap of observables\<close>

text \<open>
  The values that travel through the dependency graph. \<open>BadValue\<close> is the sentinel
  object \<open>ProAct.Observable.BadValue\<close>, compared by identity in the source. An
  \<open>Event\<close> is the envelope built by \<open>new Pro.Event(source, observable, type)\<close>;
  its first component is the identity of the allocated object, the type is always
  \<open>Pro.Event.Types.value\<close> in the code under study and is left out.
\<close>

datatype val =
    JUndefined
  | JNull
  | JBool bool
  | JNum int
  | JStr string
  | BadValue
  | TypeError
  | JError string
  | Event nat val nat

text \<open>JavaScript truthiness of a value, as used by \<open>if (f.call(_this, val))\<close>.\<close>

fun truthy :: "val \<Rightarrow> bool" where
  "truthy JUndefined = False"
| "truthy JNull = False"
| "truthy (JBool b) = b"
| "truthy (JNum n) = (n \<noteq> 0)"
| "truthy (JStr s) = (s \<noteq> [])"
| "truthy _ = True"

text \<open>
  A listener is a function or an object with a \<open>call\<close> method; either may carry a
  \<open>property\<close> field that refers to an observable. A natural number stands for the
  identity of a consumer's function or object. \<open>StreamListener r\<close> and
  \<open>StreamErrListener r\<close> are the two closures a stream \<open>r\<close> builds for itself in
  \<open>makeListener\<close> and \<open>makeErrListener\<close>. \<open>Null\<close> and \<open>Undefined\<close> are the
  JavaScript values of these names, which the lists may hold as well. The type tests
  \<open>Pro.U.isFunction\<close>, \<open>Pro.U.isString\<close> and \<open>Pro.U.isArray\<close> are not among the sources;
  here they tell the constructors apart. Every callback other than \<open>Null\<close> and
  \<open>Undefined\<close> has a \<open>call\<close> method, a function through its prototype.
\<close>

datatype callback =
    Null
  | Undefined
  | Function nat "nat option"
  | CallObject nat "nat option"
  | StreamListener nat
  | StreamErrListener nat

fun isFunction :: "callback \<Rightarrow> bool" where
  "isFunction (Function _ _) = True"
| "isFunction (StreamListener _) = True"
| "isFunction (StreamErrListener _) = True"
| "isFunction _ = False"

fun property :: "callback \<Rightarrow> nat option" where
  "property (Function _ p) = p"
| "property (CallObject _ p) = p"
| "property _ = None"

fun truthy_cb :: "callback \<Rightarrow> bool" where
  "truthy_cb Null = False"
| "truthy_cb Undefined = False"
| "truthy_cb _ = True"

text \<open>The first argument of \<open>on\<close> and \<open>off\<close> is a string (an action name) or a callback.\<close>

datatype jsarg = AStr string | ACb callback

fun isString :: "jsarg \<Rightarrow> bool" where
  "isString (AStr _) = True"
| "isString (ACb _) = False"

fun truthy_arg :: "jsarg \<Rightarrow> bool" where
  "truthy_arg (AStr s) = (s \<noteq> [])"
| "truthy_arg (ACb c) = truthy_cb c"

text \<open>
  The stages of a transform pipeline. \<open>UserFunction f\<close> is a function handed to
  \<open>transform\<close> or \<open>mapping\<close> as it is; \<open>FilteringClosure f\<close> is the closure built by
  \<open>filtering(f)\<close>; \<open>AccumulationClosure c f\<close> is the closure built by
  \<open>accumulation(initVal, f)\<close>, where \<open>c\<close> is the address of the variable \<open>val\<close> it
  captured. A user function returns \<open>Inr v\<close> or throws (\<open>Inl e\<close>).
\<close>

datatype transformation =
    UserFunction "val \<Rightarrow> val + val"
  | FilteringClosure "val \<Rightarrow> val + val"
  | AccumulationClosure nat "val \<Rightarrow> val \<Rightarrow> val + val"

datatype kind = Observable | Stream

record observable =
  kind :: kind
  listeners :: "callback list"
  errListeners :: "callback list"
  sources :: "nat list"
  listener :: callback
  errListener :: callback
  transforms :: "transformation list"
  parent :: callback

text \<open>
  The world: the heap of observables (by address), the captured variables of the
  accumulation closures, the counter of allocated events, the scheduler \<open>Pro.flow\<close>
  (its running flag and its queue of pending calls) and the record of the calls made to
  the consumers' callbacks, oldest first.
\<close>

record world =
  observables :: "nat \<Rightarrow> observable"
  cells :: "nat \<Rightarrow> val"
  next_cell :: nat
  next_event :: nat
  flow_running :: bool
  flow_queue :: "(callback \<times> val list) list"
  calls :: "(nat \<times> val list) list"

text \<open>The result of a call that may throw; a call cut off by its fuel is \<open>OutOfFuel\<close>.\<close>

datatype result = Returns world | Throws val world | OutOfFuel

text \<open>The constructor \<open>ProAct.Observable = function (transforms) {...}\<close>.\<close>

definition new_Observable :: "transformation list option \<Rightarrow> observable" where
  "new_Observable ts =
     \<lparr> kind = Observable, listeners = [], errListeners = [], sources = [],
       listener = Null, errListener = Null,
       transforms = (case ts of Some t \<Rightarrow> t | None \<Rightarrow> []),
       parent = Null \<rparr>"

text \<open>A listener or error-listener array of the heap, named by its owner.\<close>

datatype array_ref = ListenersOf nat | ErrListenersOf nat

fun array_get :: "array_ref \<Rightarrow> world \<Rightarrow> callback list" where
  "array_get (ListenersOf r) s = listeners (observables s r)"
| "array_get (ErrListenersOf r) s = errListeners (observables s r)"

fun array_set :: "array_ref \<Rightarrow> callback list \<Rightarrow> world \<Rightarrow> world" where
  "array_set (ListenersOf r) xs s =
     s\<lparr>observables := (observables s)(r := (observables s r)\<lparr>listeners := xs\<rparr>)\<rparr>"
| "array_set (ErrListenersOf r) xs s =
     s\<lparr>observables := (observables s)(r := (observables s r)\<lparr>errListeners := xs\<rparr>)\<rparr>"

text \<open>
  Modelled from the spec: \<open>Pro.U.remove\<close> is not among the sources. \<open>offSource\<close> is
  the inverse of one \<open>into\<close> edge, and \<open>into\<close> twice makes two edges, so one matching
  entry is removed, the first.
\<close>

definition remove :: "'a list \<Rightarrow> 'a \<Rightarrow> 'a list" where
  "remove array v = remove1 v array"

section \<open>The scheduler\<close>

text \<open>
  Modelled from the spec: \<open>Pro.flow\<close> (ProAct.Flow) is not among the sources.
  \<open>push\<close> enqueues unconditionally. \<open>pushOnce\<close> enqueues only if the callback is not
  queued already; for a queued callback the position is kept and the arguments are
  those of the last call.
\<close>

definition isRunning :: "world \<Rightarrow> bool" where
  "isRunning s = flow_running s"

definition push :: "callback \<Rightarrow> val list \<Rightarrow> world \<Rightarrow> world" where
  "push cb args s = s\<lparr>flow_queue := flow_queue s @ [(cb, args)]\<rparr>"

definition pushOnce :: "callback \<Rightarrow> val list \<Rightarrow> world \<Rightarrow> world" where
  "pushOnce cb args s =
     (if cb \<in> set (map fst (flow_queue s))
      then s\<lparr>flow_queue := map (\<lambda>e. if fst e = cb then (cb, args) else e) (flow_queue s)\<rparr>
      else push cb args s)"

section \<open>ProAct.Observable\<close>

text \<open>\<open>P.Observable.transform(observable, val)\<close>: one stage, then the loop with its break.\<close>

fun apply_transformation :: "transformation \<Rightarrow> val \<Rightarrow> world \<Rightarrow> (val + val) \<times> world" where
  "apply_transformation (UserFunction f) v s = (f v, s)"
| "apply_transformation (FilteringClosure f) v s =
     (case f v of
        Inl e \<Rightarrow> (Inl e, s)
      | Inr b \<Rightarrow> if truthy b then (Inr v, s) else (Inr BadValue, s))"
| "apply_transformation (AccumulationClosure c f) newVal s =
     (case f (cells s c) newVal of
        Inl e \<Rightarrow> (Inl e, s)
      | Inr v \<Rightarrow> (Inr v, s\<lparr>cells := (cells s)(c := v)\<rparr>))"

fun transform_loop :: "transformation list \<Rightarrow> val \<Rightarrow> world \<Rightarrow> (val + val) \<times> world" where
  "transform_loop [] v s = (Inr v, s)"
| "transform_loop (t # ts) v s =
     (case apply_transformation t v s of
        (Inl e, s') \<Rightarrow> (Inl e, s')
      | (Inr v', s') \<Rightarrow> if v' = BadValue then (Inr v', s') else transform_loop ts v' s')"

definition Observable_transform :: "nat \<Rightarrow> val \<Rightarrow> world \<Rightarrow> (val + val) \<times> world" where
  "Observable_transform observable v s = transform_loop (transforms (observables s observable)) v s"

text \<open>
  \<open>makeListener\<close>, \<open>makeErrListener\<close> and \<open>makeEvent\<close>, of the base and of the stream.
  The constructor \<open>Pro.Event\<close> is not among the sources: the event of the base is the
  envelope of the source and the observable the specification describes, with the next
  free identity.
\<close>

definition makeListener :: "nat \<Rightarrow> world \<Rightarrow> callback \<times> world" where
  "makeListener this s =
     (case kind (observables s this) of
        Observable \<Rightarrow> (Null, s)
      | Stream \<Rightarrow>
          (let s' = (if \<not> truthy_cb (listener (observables s this))
                     then s\<lparr>observables := (observables s)
                            (this := (observables s this)\<lparr>listener := StreamListener this\<rparr>)\<rparr>
                     else s)
           in (listener (observables s' this), s')))"

definition makeErrListener :: "nat \<Rightarrow> world \<Rightarrow> callback \<times> world" where
  "makeErrListener this s =
     (case kind (observables s this) of
        Observable \<Rightarrow> (Null, s)
      | Stream \<Rightarrow>
          (let s' = (if \<not> truthy_cb (errListener (observables s this))
                     then s\<lparr>observables := (observables s)
                            (this := (observables s this)\<lparr>errListener := StreamErrListener this\<rparr>)\<rparr>
                     else s)
           in (errListener (observables s' this), s')))"

definition makeEvent :: "nat \<Rightarrow> val \<Rightarrow> world \<Rightarrow> val \<times> world" where
  "makeEvent this source s =
     (case kind (observables s this) of
        Observable \<Rightarrow> (Event (next_event s) source this, s\<lparr>next_event := Suc (next_event s)\<rparr>)
      | Stream \<Rightarrow> (source, s))"

text \<open>\<open>on\<close>, \<open>off\<close>, \<open>onErr\<close>, \<open>offErr\<close>. The third argument is an array or absent.\<close>

definition on :: "nat \<Rightarrow> jsarg \<Rightarrow> callback \<Rightarrow> array_ref option \<Rightarrow> world \<Rightarrow> world" where
  "on this action callback callbacks s =
     (let callback = (case action of AStr _ \<Rightarrow> callback | ACb a \<Rightarrow> a) in
      case callbacks of
        Some arr \<Rightarrow> array_set arr (array_get arr s @ [callback]) s
      | None \<Rightarrow> array_set (ListenersOf this) (array_get (ListenersOf this) s @ [callback]) s)"

definition off :: "nat \<Rightarrow> jsarg \<Rightarrow> callback \<Rightarrow> array_ref option \<Rightarrow> world \<Rightarrow> world" where
  "off this action callback callbacks s =
     (if \<not> truthy_arg action \<and> \<not> truthy_cb callback then
        (case callbacks of
           Some arr \<Rightarrow> array_set arr [] s
         | None \<Rightarrow> array_set (ListenersOf this) [] s)
      else
        (let callback = (case action of AStr _ \<Rightarrow> callback | ACb a \<Rightarrow> a) in
         case callbacks of
           Some arr \<Rightarrow> array_set arr (remove (array_get arr s) callback) s
         | None \<Rightarrow> array_set (ListenersOf this) (remove (array_get (ListenersOf this) s) callback) s))"

definition onErr :: "nat \<Rightarrow> jsarg \<Rightarrow> callback \<Rightarrow> world \<Rightarrow> world" where
  "onErr this action callback s = on this action callback (Some (ErrListenersOf this)) s"

definition offErr :: "nat \<Rightarrow> jsarg \<Rightarrow> callback \<Rightarrow> world \<Rightarrow> world" where
  "offErr this action callback s = off this action callback (Some (ErrListenersOf this)) s"

text \<open>\<open>into\<close>, \<open>out\<close> and \<open>offSource\<close>.\<close>

fun into :: "nat \<Rightarrow> nat list \<Rightarrow> world \<Rightarrow> world" where
  "into this [] s = s"
| "into this (source # args) s =
     (let s1 = s\<lparr>observables := (observables s)
                 (this := (observables s this)\<lparr>sources := sources (observables s this) @ [source]\<rparr>)\<rparr>;
          (l, s2) = makeListener this s1;
          s3 = on source (ACb l) Undefined None s2;
          (e, s4) = makeErrListener this s3;
          s5 = onErr source (ACb e) Undefined s4
      in into this args s5)"

definition out :: "nat \<Rightarrow> nat \<Rightarrow> world \<Rightarrow> world" where
  "out this destination s = into destination [this] s"

definition offSource :: "nat \<Rightarrow> nat \<Rightarrow> world \<Rightarrow> world" where
  "offSource this source s =
     (let s1 = s\<lparr>observables := (observables s)
                 (this := (observables s this)\<lparr>sources := remove (sources (observables s this)) source\<rparr>)\<rparr>;
          s2 = off source (ACb (listener (observables s1 this))) Undefined None s1;
          s3 = offErr source (ACb (errListener (observables s2 this))) Undefined s2
      in s3)"

text \<open>\<open>transform\<close>, \<open>mapping\<close>, \<open>filtering\<close> and \<open>accumulation\<close> extend this node's pipeline.\<close>

definition transform :: "nat \<Rightarrow> transformation \<Rightarrow> world \<Rightarrow> world" where
  "transform this transformation s =
     s\<lparr>observables := (observables s)
        (this := (observables s this)\<lparr>transforms := transforms (observables s this) @ [transformation]\<rparr>)\<rparr>"

definition mapping :: "nat \<Rightarrow> (val \<Rightarrow> val + val) \<Rightarrow> world \<Rightarrow> world" where
  "mapping this f s = transform this (UserFunction f) s"

definition filtering :: "nat \<Rightarrow> (val \<Rightarrow> val + val) \<Rightarrow> world \<Rightarrow> world" where
  "filtering this f s = transform this (FilteringClosure f) s"

definition accumulation :: "nat \<Rightarrow> val \<Rightarrow> (val \<Rightarrow> val \<Rightarrow> val + val) \<Rightarrow> world \<Rightarrow> world" where
  "accumulation this initVal f s =
     (let c = next_cell s;
          s1 = s\<lparr>cells := (cells s)(c := initVal), next_cell := Suc c\<rparr>
      in transform this (AccumulationClosure c f) s1)"

text \<open>
  \<open>defer\<close> of the base and of the stream. Reading \<open>callback.call\<close> or
  \<open>listener.property\<close> of \<open>null\<close> or \<open>undefined\<close> throws a \<open>TypeError\<close>.
\<close>

definition defer_Observable :: "val \<Rightarrow> callback \<Rightarrow> world \<Rightarrow> result" where
  "defer_Observable event callback s =
     (if isFunction callback then Returns (pushOnce callback [event] s)
      else if truthy_cb callback then Returns (pushOnce callback [event] s)
      else Throws TypeError s)"

definition defer_Stream :: "val \<Rightarrow> callback \<Rightarrow> world \<Rightarrow> result" where
  "defer_Stream event callback s =
     (if \<not> truthy_cb callback then Throws TypeError s
      else if property callback \<noteq> None then defer_Observable event callback s
      else if isFunction callback then Returns (push callback [event] s)
      else Returns (push callback [event] s))"

definition defer_method :: "nat \<Rightarrow> val \<Rightarrow> callback \<Rightarrow> world \<Rightarrow> result" where
  "defer_method this event callback s =
     (case kind (observables s this) of
        Observable \<Rightarrow> defer_Observable event callback s
      | Stream \<Rightarrow> defer_Stream event callback s)"

text \<open>
  \<open>willUpdate\<close>. The local variable \<open>listeners\<close> (here \<open>listeners'\<close>) is a reference to the array, not a copy,
  and \<open>length\<close> is read once before the loop; \<open>listeners[i]\<close> beyond the end of the
  array is \<open>undefined\<close>. The call \<open>listener.property.willUpdate(event)\<close> recurses through
  the graph of properties, which may be cyclic: the fuel bounds its depth.
\<close>

function willUpdate :: "nat \<Rightarrow> nat \<Rightarrow> val \<Rightarrow> array_ref option \<Rightarrow> world \<Rightarrow> result"
  and willUpdate_loop :: "nat \<Rightarrow> nat \<Rightarrow> array_ref \<Rightarrow> nat \<Rightarrow> val \<Rightarrow> nat \<Rightarrow> world \<Rightarrow> result"
where
  "willUpdate fuel this source callbacks s =
     (let listeners' = (case callbacks of Some arr \<Rightarrow> arr | None \<Rightarrow> ListenersOf this);
          len = length (array_get listeners' s);
          es = makeEvent this source s
      in case willUpdate_loop fuel this listeners' len (fst es) 0 (snd es) of
           Returns s2 \<Rightarrow>
             (if truthy_cb (parent (observables s2 this))
              then defer_method this (fst es) (parent (observables s2 this)) s2
              else Returns s2)
         | Throws e s2 \<Rightarrow> Throws e s2
         | OutOfFuel \<Rightarrow> OutOfFuel)"
| "willUpdate_loop fuel this listeners' len event i s =
     (if i < len then
        (let listener' = (if i < length (array_get listeners' s)
                         then array_get listeners' s ! i else Undefined)
         in case defer_method this event listener' s of
              Returns s1 \<Rightarrow>
                (case property listener' of
                   None \<Rightarrow> willUpdate_loop fuel this listeners' len event (Suc i) s1
                 | Some p \<Rightarrow>
                     (case fuel of
                        0 \<Rightarrow> OutOfFuel
                      | Suc k \<Rightarrow>
                          (case willUpdate k p event None s1 of
                             Returns s2 \<Rightarrow> willUpdate_loop fuel this listeners' len event (Suc i) s2
                           | Throws e s2 \<Rightarrow> Throws e s2
                           | OutOfFuel \<Rightarrow> OutOfFuel)))
            | Throws e s1 \<Rightarrow> Throws e s1
            | OutOfFuel \<Rightarrow> OutOfFuel)
      else Returns s)"
  by pat_completeness auto
termination
  by (relation "measures [
        (\<lambda>x. case x of Inl (fuel, _) \<Rightarrow> fuel | Inr (fuel, _) \<Rightarrow> fuel),
        (\<lambda>x. case x of Inl _ \<Rightarrow> 1 | Inr _ \<Rightarrow> 0),
        (\<lambda>x. case x of Inl _ \<Rightarrow> 0 | Inr (_, _, _, len, _, i, _) \<Rightarrow> len - i)]") auto

declare willUpdate.simps [simp del]
declare willUpdate_loop.simps [simp del]

section \<open>ProAct.Stream and the batch\<close>

text \<open>
  \<open>update\<close> of the base and \<open>trigger\<close>, \<open>triggerErr\<close> and \<open>go\<close> of the stream are
  defined together with the scheduler's \<open>run\<close>, which they call and which calls them
  back through the queued listeners of the streams.
\<close>

text \<open>
  Modelled from the spec: \<open>Pro.flow.run\<close> is not among the sources. If no batch is
  open it marks the flow running, executes the body, drains the queue in enqueue order
  (callbacks enqueued during the drain included) until it is empty, and marks the flow
  not running; an exception of the body or of a callback is not caught. A queued
  consumer callback is foreign code: its call is recorded in \<open>calls\<close>. The queue may
  never empty (a cycle of streams), so each call of a queued callback takes one unit of
  fuel. These are \<open>flow_run\<close>, \<open>drain\<close> and \<open>invoke\<close> below.
\<close>

definition arg0 :: "val list \<Rightarrow> val" where
  "arg0 args = (case args of [] \<Rightarrow> JUndefined | a # _ \<Rightarrow> a)"

function update :: "nat \<Rightarrow> nat \<Rightarrow> val \<Rightarrow> array_ref option \<Rightarrow> world \<Rightarrow> result"
  and flow_run :: "nat \<Rightarrow> (world \<Rightarrow> result) \<Rightarrow> world \<Rightarrow> result"
  and drain :: "nat \<Rightarrow> world \<Rightarrow> result"
  and invoke :: "nat \<Rightarrow> callback \<Rightarrow> val list \<Rightarrow> world \<Rightarrow> result"
  and trigger :: "nat \<Rightarrow> nat \<Rightarrow> val \<Rightarrow> bool option \<Rightarrow> world \<Rightarrow> result"
  and triggerErr :: "nat \<Rightarrow> nat \<Rightarrow> val \<Rightarrow> world \<Rightarrow> result"
  and go :: "nat \<Rightarrow> nat \<Rightarrow> val \<Rightarrow> bool \<Rightarrow> world \<Rightarrow> result"
where
  "update fuel this source callbacks s =
     (if listeners (observables s this) = [] \<and> errListeners (observables s this) = []
         \<and> parent (observables s this) = Null
      then Returns s
      else if \<not> isRunning s
      then flow_run fuel (willUpdate fuel this source callbacks) s
      else willUpdate fuel this source callbacks s)"
| "flow_run fuel body s =
     (if flow_running s then Returns s
      else
        (case body (s\<lparr>flow_running := True\<rparr>) of
           Returns s1 \<Rightarrow>
             (case drain fuel s1 of
                Returns s2 \<Rightarrow> Returns (s2\<lparr>flow_running := False\<rparr>)
              | Throws e s2 \<Rightarrow> Throws e s2
              | OutOfFuel \<Rightarrow> OutOfFuel)
         | Throws e s1 \<Rightarrow> Throws e s1
         | OutOfFuel \<Rightarrow> OutOfFuel))"
| "drain 0 s = (case flow_queue s of [] \<Rightarrow> Returns s | _ # _ \<Rightarrow> OutOfFuel)"
| "drain (Suc k) s =
     (case flow_queue s of
        [] \<Rightarrow> Returns s
      | entry # rest \<Rightarrow>
          (case invoke k (fst entry) (snd entry) (s\<lparr>flow_queue := rest\<rparr>) of
             Returns s1 \<Rightarrow> drain k s1
           | Throws e s1 \<Rightarrow> Throws e s1
           | OutOfFuel \<Rightarrow> OutOfFuel))"
| "invoke fuel cb args s =
     (case cb of
        Function i _ \<Rightarrow> Returns (s\<lparr>calls := calls s @ [(i, args)]\<rparr>)
      | CallObject i _ \<Rightarrow> Returns (s\<lparr>calls := calls s @ [(i, args)]\<rparr>)
      | StreamListener stream \<Rightarrow> trigger fuel stream (arg0 args) (Some True) s
      | StreamErrListener stream \<Rightarrow> triggerErr fuel stream (arg0 args) s
      | Null \<Rightarrow> Throws TypeError s
      | Undefined \<Rightarrow> Throws TypeError s)"
| "trigger fuel this event useTransformations s =
     go fuel this event (case useTransformations of None \<Rightarrow> True | Some b \<Rightarrow> b) s"
| "triggerErr fuel this err s = update fuel this err (Some (ErrListenersOf this)) s"
| "go fuel this event useTransformations s =
     (if useTransformations then
        (case Observable_transform this event s of
           (Inl e, s1) \<Rightarrow> triggerErr fuel this e s1
         | (Inr event', s1) \<Rightarrow>
             if event' = BadValue then Returns s1 else update fuel this event' None s1)
      else if event = BadValue then Returns s
      else update fuel this event None s)"
  by pat_completeness auto
termination
  by (relation "measure (\<lambda>x. case x of
          Inl (Inl (fuel, _)) \<Rightarrow> 7 * fuel + 2
        | Inl (Inr (Inl (fuel, _))) \<Rightarrow> 7 * fuel + 1
        | Inl (Inr (Inr (fuel, _))) \<Rightarrow> 7 * fuel
        | Inr (Inl (Inl (fuel, _))) \<Rightarrow> 7 * fuel + 6
        | Inr (Inl (Inr (fuel, _))) \<Rightarrow> 7 * fuel + 5
        | Inr (Inr (Inl (fuel, _))) \<Rightarrow> 7 * fuel + 3
        | Inr (Inr (Inr (fuel, _))) \<Rightarrow> 7 * fuel + 4)") auto

declare update.simps [simp del]
declare flow_run.simps [simp del]
declare drain.simps [simp del]
declare invoke.simps [simp del]
declare trigger.simps [simp del]
declare triggerErr.simps [simp del]
declare go.simps [simp del]

text \<open>The constructor \<open>ProAct.Stream = function (source, transforms) {...}\<close>, at address \<open>this\<close>.\<close>

definition new_Stream :: "nat \<Rightarrow> nat option \<Rightarrow> transformation list option \<Rightarrow> world \<Rightarrow> world" where
  "new_Stream this source ts s =
     (let s1 = s\<lparr>observables := (observables s)(this := (new_Observable ts)\<lparr>kind := Stream\<rparr>)\<rparr>
      in case source of Some src \<Rightarrow> into this [src] s1 | None \<Rightarrow> s1)"

text \<open>A world with nothing in it: every address holds a fresh base observable.\<close>

definition empty_world :: world where
  "empty_world =
     \<lparr> observables = (\<lambda>_. new_Observable None), cells = (\<lambda>_. JUndefined),
       next_cell = 0, next_event = 0, flow_running = False, flow_queue = [], calls = [] \<rparr>"

text \<open>Sequencing of calls that may throw, for a caller that makes several in a row.\<close>

definition and_then :: "result \<Rightarrow> (world \<Rightarrow> result) \<Rightarrow> result" where
  "and_then r f = (case r of Returns s \<Rightarrow> f s | Throws e s \<Rightarrow> Throws e s | OutOfFuel \<Rightarrow> OutOfFuel)"

fun trigger_each :: "nat \<Rightarrow> nat \<Rightarrow> val list \<Rightarrow> world \<Rightarrow> result" where
  "trigger_each fuel this [] s = Returns s"
| "trigger_each fuel this (v # vs) s = and_then (trigger fuel this v None s) (trigger_each fuel this vs)"

text \<open>Two streams at the addresses 0 and 1, nothing wired.\<close>

definition two_streams :: world where
  "two_streams = new_Stream 1 None None (new_Stream 0 None None empty_world)"

text \<open>
  The stream 1 wired into the stream 0, and two consumers listening to the stream 0, one
  on each track.
\<close>

definition busy_source :: world where
  "busy_source =
     onErr 0 (ACb (Function 12 None)) Undefined
       (on 0 (ACb (Function 11 None)) Undefined None
          (into 1 [0] two_streams))"

text \<open>The number of pending calls of a callback in the queue of the open batch.\<close>

definition queued :: "callback \<Rightarrow> world \<Rightarrow> nat" where
  "queued cb s = length (filter (\<lambda>e. fst e = cb) (flow_queue s))"

text \<open>
  A stream at the address 0 and a base observable at the address 1, each with the same
  consumer function as its only listener.
\<close>

definition stream_and_base :: world where
  "stream_and_base =
     on 1 (ACb (Function 7 None)) Undefined None
       (on 0 (ACb (Function 7 None)) Undefined None (new_Stream 0 None None empty_world))"

text \<open>The calls the consumers have received when a call returns.\<close>

definition calls_of :: "result \<Rightarrow> (nat \<times> val list) list option" where
  "calls_of r = (case r of Returns s \<Rightarrow> Some (calls s) | Throws e s \<Rightarrow> None | OutOfFuel \<Rightarrow> None)"

text \<open>
  Two functions of a consumer: the predicate \<open>x => x > 0\<close> and the combiner
  \<open>(a, v) => a + v\<close>, on numbers.
\<close>

definition positive :: "val \<Rightarrow> val + val" where
  "positive x = (case x of JNum n \<Rightarrow> Inr (JBool (n > 0)) | _ \<Rightarrow> Inr (JBool False))"

definition add :: "val \<Rightarrow> val \<Rightarrow> val + val" where
  "add a v = (case (a, v) of (JNum x, JNum y) \<Rightarrow> Inr (JNum (x + y)) | _ \<Rightarrow> Inr JUndefined)"

text \<open>
  A stream at the address 0 with one consumer listening: with \<open>filtering(x => x > 0)\<close>,
  with \<open>accumulation(0, (a, v) => a + v)\<close>, and with that accumulation installed twice.
\<close>

definition filtered_stream :: world where
  "filtered_stream =
     on 0 (ACb (Function 7 None)) Undefined None
       (filtering 0 positive (new_Stream 0 None None empty_world))"

definition summing_stream :: world where
  "summing_stream =
     on 0 (ACb (Function 7 None)) Undefined None
       (accumulation 0 (JNum 0) add (new_Stream 0 None None empty_world))"

definition summing_twice_stream :: world where
  "summing_twice_stream =
     on 0 (ACb (Function 7 None)) Undefined None
       (accumulation 0 (JNum 0) add
          (accumulation 0 (JNum 0) add (new_Stream 0 None None empty_world)))"

definition cells_of :: "result \<Rightarrow> nat \<Rightarrow> val option" where
  "cells_of r c = (case r of Returns s \<Rightarrow> Some (cells s c) | Throws e s \<Rightarrow> None | OutOfFuel \<Rightarrow> None)"

definition filter_then_sum_stream :: world where
  "filter_then_sum_stream =
     on 0 (ACb (Function 7 None)) Undefined None
       (accumulation 0 (JNum 0) add
          (filtering 0 positive (new_Stream 0 None None empty_world)))"

text \<open>
  \<open>willUpdate\<close> in the words of the specification, to be compared with the loop of the
  source: one event is built for the round; the target list (the given list, else
  \<open>listeners\<close>) is taken as it is when the round starts; each of its listeners is
  deferred with that event, and a listener with a \<open>property\<close> tag also has its
  property's \<open>willUpdate\<close> called with the event; a parent that is set is deferred once.
\<close>

fun defer_each :: "nat \<Rightarrow> nat \<Rightarrow> val \<Rightarrow> callback list \<Rightarrow> world \<Rightarrow> result" where
  "defer_each fuel this event [] s = Returns s"
| "defer_each fuel this event (l # ls) s =
     and_then (defer_method this event l s)
       (\<lambda>s1. case property l of
                None \<Rightarrow> defer_each fuel this event ls s1
              | Some p \<Rightarrow>
                  (case fuel of
                     0 \<Rightarrow> OutOfFuel
                   | Suc k \<Rightarrow> and_then (willUpdate k p event None s1) (defer_each fuel this event ls)))"

definition willUpdate_spec :: "nat \<Rightarrow> nat \<Rightarrow> val \<Rightarrow> array_ref option \<Rightarrow> world \<Rightarrow> result" where
  "willUpdate_spec fuel this source list s =
     (let snapshot = (case list of Some arr \<Rightarrow> array_get arr s | None \<Rightarrow> listeners (observables s this));
          es = makeEvent this source s
      in and_then (defer_each fuel this (fst es) snapshot (snd es))
           (\<lambda>s2. if truthy_cb (parent (observables s2 this))
                  then defer_method this (fst es) (parent (observables s2 this)) s2
                  else Returns s2))"

text \<open>A base observable at the address 1 with two consumers listening.\<close>

definition base_with_two :: world where
  "base_with_two =
     on 1 (ACb (Function 8 None)) Undefined None
       (on 1 (ACb (Function 7 None)) Undefined None empty_world)"

text \<open>
  A user function that throws on every input, and a stream at the address 0 that maps
  with it, with a consumer on the value track and two on the error track.
\<close>

definition throwing :: "val \<Rightarrow> val + val" where
  "throwing v = Inl (JError ''boom'')"

definition failing_stream :: world where
  "failing_stream =
     onErr 0 (ACb (Function 22 None)) Undefined
       (onErr 0 (ACb (Function 21 None)) Undefined
          (on 0 (ACb (Function 7 None)) Undefined None
             (mapping 0 throwing (new_Stream 0 None None empty_world))))"

text \<open>
  A listener that \<open>defer\<close> of a stream enqueues unconditionally: it is neither \<open>null\<close>
  nor \<open>undefined\<close> and carries no \<open>property\<close>. The calls of one round of
  \<open>triggerErr(e)\<close> on such listeners: one for each error listener, in order, then one
  for the parent if it is set.
\<close>

definition plain_listener :: "callback \<Rightarrow> bool" where
  "plain_listener cb = (truthy_cb cb \<and> property cb = None)"

definition error_round :: "nat \<Rightarrow> val \<Rightarrow> world \<Rightarrow> (callback \<times> val list) list" where
  "error_round this e s =
     map (\<lambda>l. (l, [e])) (errListeners (observables s this)) @
     (if truthy_cb (parent (observables s this)) then [(parent (observables s this), [e])] else [])"

text \<open>
  The stream 1, which maps with the throwing function, wired into the stream 0; each
  stream has a consumer on its value track (11 and 22) and one on its error track (12
  and 21).
\<close>

definition failing_downstream :: world where
  "failing_downstream =
     onErr 1 (ACb (Function 21 None)) Undefined
       (on 1 (ACb (Function 22 None)) Undefined None
          (onErr 0 (ACb (Function 12 None)) Undefined
             (on 0 (ACb (Function 11 None)) Undefined None
                (into 1 [0] (mapping 1 throwing two_streams)))))"

text \<open>
  A stream at the address 0 that maps with the throwing function, with a consumer on the
  error track, and the base observable at the address 1 wired into it afterwards.
\<close>

definition null_error_listener :: world where
  "null_error_listener =
     into 1 [0]
       (onErr 0 (ACb (Function 21 None)) Undefined
          (mapping 0 throwing (new_Stream 0 None None empty_world)))"

section \<open>ProAct.ObjectCore and ProAct.prob\<close>

text \<open>
  The values a field of a shell object may hold. A function is known by its identity.
  A plain object has its own enumerable fields, in insertion order, and the enumerable
  fields it inherits from its prototype chain (none for an object literal), which ends
  in \<open>Object.prototype\<close>. The keys of an object are distinct.
\<close>

datatype jsval =
    VUndefined
  | VNull
  | VBool bool
  | VNum int
  | VStr string
  | VFunction nat
  | VArray "jsval list"
  | VObject "(string \<times> jsval) list" "(string \<times> jsval) list"

text \<open>JavaScript truthiness of such a value.\<close>

fun truthy_js :: "jsval \<Rightarrow> bool" where
  "truthy_js VUndefined = False"
| "truthy_js VNull = False"
| "truthy_js (VBool b) = b"
| "truthy_js (VNum n) = (n \<noteq> 0)"
| "truthy_js (VStr s) = (s \<noteq> [])"
| "truthy_js _ = True"

text \<open>
  Modelled from the spec: the type tests \<open>P.U.isFunction\<close>, \<open>P.U.isArray\<close>,
  \<open>P.U.isArrayObject\<close> and \<open>P.U.isObject\<close> are not among the sources. They are the tests
  their names say: a function, an array, an array-like value, and a value whose
  \<open>typeof\<close> is \<open>'object'\<close> (which an array and \<open>null\<close> are as well).
\<close>

fun isF :: "jsval \<Rightarrow> bool" where
  "isF (VFunction _) = True"
| "isF _ = False"

fun isArray :: "jsval \<Rightarrow> bool" where
  "isArray (VArray _) = True"
| "isArray _ = False"

definition isA :: "jsval \<Rightarrow> bool" where
  "isA v = isArray v"

fun isO :: "jsval \<Rightarrow> bool" where
  "isO (VObject _ _) = True"
| "isO (VArray _) = True"
| "isO VNull = True"
| "isO _ = False"

text \<open>
  The meta-data of one field: a string or an array of strings. The kinds of property,
  under the names of their constructors: \<open>P.NP\<close> for a field that is \<open>null\<close> or
  \<open>undefined\<close>, \<open>P.P\<close> for a scalar, \<open>P.FP\<close> for a function, \<open>P.AP\<close> for an array,
  \<open>P.OP\<close> for an object. A property has its kind, the name of its field, its change
  listeners and, for \<open>P.OP\<close>, the core of the field's object. A core has its meta-data
  and its properties by field name.
\<close>

datatype meta = MetaString string | MetaArray "string list"

datatype PropertyKind = NP | P | FP | AP | OP

datatype Property =
    Prop (prop_kind: PropertyKind) (prop_name: string) (change: "nat list")
         (nested: "ObjectCore option")
  and ObjectCore =
    ObjectCore (core_meta: "(string \<times> meta) list") (core_properties: "(string \<times> Property) list")

datatype error = Error string | TypeErr

text \<open>
  The environment: \<open>P.Configuration\<close> (\<open>keyprops\<close>, \<open>keypropList\<close>), whether
  \<open>P.registry\<close> is set, and what a function of the heap does when it is called as
  \<open>object.hasOwnProperty(property)\<close> with a field name: it returns a value or throws,
  and is taken to have no other effect.
\<close>

record config =
  keyprops :: bool
  keypropList :: "string list"
  registry :: bool
  call :: "nat \<Rightarrow> string \<Rightarrow> error + jsval"

text \<open>
  The shell object: its own fields, its inherited fields, and whether it has its hidden
  field \<open>__pro__\<close>, which then refers to its core. The state that \<open>setup\<close> changes: the
  core, and the calls received by \<open>P.registry.setup\<close>.
\<close>

record shell =
  shell_own :: "(string \<times> jsval) list"
  shell_inherited :: "(string \<times> jsval) list"
  shell_pro :: bool

record state =
  core :: ObjectCore
  registry_calls :: "(Property option \<times> string list) list"

datatype 'a outcome = Return 'a state | Throw error state

text \<open>Assignment to a field of a JavaScript object: in place if the key exists, else at the end.\<close>

fun assign :: "string \<Rightarrow> 'a \<Rightarrow> (string \<times> 'a) list \<Rightarrow> (string \<times> 'a) list" where
  "assign k v [] = [(k, v)]"
| "assign k v ((k', v') # kvs) = (if k = k' then (k, v) # kvs else (k', v') # assign k v kvs)"

text \<open>
  \<open>object.hasOwnProperty(property)\<close>. The method is looked up on the shell itself: a
  field named \<open>hasOwnProperty\<close>, own or inherited, hides the one of \<open>Object.prototype\<close>.
  If that field holds a function, the function is called; if it holds anything else, the
  call throws a \<open>TypeError\<close>.
\<close>

definition hasOwnProperty :: "config \<Rightarrow> shell \<Rightarrow> string \<Rightarrow> error + bool" where
  "hasOwnProperty conf sh property' =
     (case map_of (shell_own sh @ shell_inherited sh) ''hasOwnProperty'' of
        None \<Rightarrow> Inr (property' \<in> set (map fst (shell_own sh)))
      | Some (VFunction f) \<Rightarrow>
          (case call conf f property' of Inl e \<Rightarrow> Inl e | Inr v \<Rightarrow> Inr (truthy_js v))
      | Some _ \<Rightarrow> Inl TypeErr)"

text \<open>
  \<open>object[property]\<close>: the own field, else the inherited one. The loop of \<open>setup\<close> visits
  no other name (the members of \<open>Object.prototype\<close> are not enumerable, and neither is
  the hidden field \<open>__pro__\<close>); any other name is read as \<open>undefined\<close> here. Both
  this and \<open>hasOwnProperty\<close> above are for the names other than that of the hidden
  field of a shell that has it.
\<close>

definition get_field :: "shell \<Rightarrow> string \<Rightarrow> jsval" where
  "get_field sh property' =
     (case map_of (shell_own sh @ shell_inherited sh) property' of
        Some v \<Rightarrow> v
      | None \<Rightarrow> VUndefined)"

text \<open>
  The order of \<open>for (property in object)\<close>: of the own keys first the array indices (the
  canonical decimal numerals below \<open>2^32 - 1\<close>) in ascending order, then the other keys
  in insertion order; then, in the same way, the inherited keys that no own key hides.
  The hidden field \<open>__pro__\<close> is an own field that is not enumerable: once the shell
  has it, the loop does not visit that name, whatever field of that name the shell had
  or inherits.
\<close>

definition hidden :: "shell \<Rightarrow> string \<Rightarrow> bool" where
  "hidden sh property' = (shell_pro sh \<and> property' = ''__pro__'')"

definition is_digit :: "char \<Rightarrow> bool" where
  "is_digit c = (c \<in> set ''0123456789'')"

definition digit_value :: "char \<Rightarrow> int" where
  "digit_value c = int (length (takeWhile (\<lambda>d. d \<noteq> c) ''0123456789''))"

definition index_value :: "string \<Rightarrow> int" where
  "index_value s = foldl (\<lambda>n c. 10 * n + digit_value c) 0 s"

definition is_array_index :: "string \<Rightarrow> bool" where
  "is_array_index s =
     (s \<noteq> [] \<and> list_all is_digit s \<and> (s = ''0'' \<or> hd s \<noteq> CHR ''0'')
      \<and> index_value s < 4294967295)"

definition keys_in_order :: "string list \<Rightarrow> string list" where
  "keys_in_order ks =
     sort_key index_value (filter is_array_index ks) @ filter (\<lambda>k. \<not> is_array_index k) ks"

definition for_in :: "shell \<Rightarrow> string list" where
  "for_in sh =
     keys_in_order (filter (\<lambda>k. \<not> hidden sh k) (map fst (shell_own sh))) @
     keys_in_order (filter (\<lambda>k. k \<notin> set (map fst (shell_own sh)) \<and> \<not> hidden sh k)
                      (map fst (shell_inherited sh)))"

text \<open>
  Modelled from the spec: the constructors \<open>P.NP\<close>, \<open>P.P\<close>, \<open>P.FP\<close> and \<open>P.AP\<close> are
  not among the sources. The core owns a mapping from field name to property, and
  \<open>makeProp\<close> and \<open>set\<close> read \<open>this.properties[property]\<close> without ever writing it:
  the constructor enters the new property there.
\<close>

definition new_Property :: "PropertyKind \<Rightarrow> string \<Rightarrow> state \<Rightarrow> Property option outcome" where
  "new_Property k property' st =
     (let p = Prop k property' [] None
      in Return (Some p)
           (st\<lparr>core := ObjectCore (core_meta (core st))
                          (assign property' p (core_properties (core st)))\<rparr>))"

text \<open>
  The test \<open>meta && (meta === 'noprop' || (meta.indexOf && meta.indexOf('noprop') >= 0))\<close>:
  on a string \<open>indexOf\<close> searches a substring, on an array an element.
\<close>

definition substring_of :: "string \<Rightarrow> string \<Rightarrow> bool" where
  "substring_of p s = (\<exists>i \<in> set [0 ..< Suc (length s)]. take (length p) (drop i s) = p)"

fun truthy_meta :: "meta option \<Rightarrow> bool" where
  "truthy_meta None = False"
| "truthy_meta (Some (MetaString s)) = (s \<noteq> [])"
| "truthy_meta (Some (MetaArray ms)) = True"

fun noprop :: "meta option \<Rightarrow> bool" where
  "noprop None = False"
| "noprop (Some (MetaString s)) = (s \<noteq> [] \<and> (s = ''noprop'' \<or> substring_of ''noprop'' s))"
| "noprop (Some (MetaArray ms)) = (''noprop'' \<in> set ms)"

definition keyword_message :: "string \<Rightarrow> string" where
  "keyword_message property' =
     ''The property name '' @ property' @
     '' is a key word for pro objects! Objects passed to Pro.prob can not contain properties named as keyword properties.''"

text \<open>
  Modelled from the spec: the constructor and the method \<open>prob\<close> of \<open>ProAct.Core\<close>, and
  \<open>P.U.defValProp\<close>, are not among the sources. The constructor keeps the shell and the
  meta-data; \<open>defValProp(object, '__pro__', ...)\<close> defines the hidden back-reference of
  the shell; \<open>core.prob()\<close> runs \<open>setup()\<close>, and an exception of \<open>setup\<close> is fatal: it
  goes to the caller.
\<close>

definition new_ObjectCore :: "(string \<times> meta) list \<Rightarrow> ObjectCore" where
  "new_ObjectCore m = ObjectCore m []"

definition defValProp_pro :: "shell \<Rightarrow> shell" where
  "defValProp_pro sh = sh\<lparr>shell_pro := True\<rparr>"

text \<open>A field of an object is smaller than the object: the recursion of \<open>P.OP\<close> ends.\<close>

lemma size_member: "(k, v) \<in> set xs \<Longrightarrow> size v < Suc (size_list (size_prod (\<lambda>_. 0) size) xs)"
  by (induction xs) auto

lemma size_field: "map_of (xs @ ys) k = Some v \<Longrightarrow> size v < size (VObject xs ys)"
proof -
  assume "map_of (xs @ ys) k = Some v"
  then have "(k, v) \<in> set xs \<or> (k, v) \<in> set ys"
    using map_of_SomeD by fastforce
  then show ?thesis
    using size_member[of k v xs] size_member[of k v ys] by auto
qed

lemma get_field_size:
  "get_field sh k = VObject own inh \<Longrightarrow>
   size (VObject own inh) < size (VObject (shell_own sh) (shell_inherited sh))"
  unfolding get_field_def using size_field[of "shell_own sh" "shell_inherited sh" k]
  by (auto split: option.splits)

text \<open>
  The part of \<open>ProAct.prob\<close> for a plain object (lines 38 to 41), \<open>setup\<close> with its loop,
  and \<open>makeProp\<close>, whose chain of tests on the field (lines 102 to 112) has a name of its
  own. In the model \<open>object.hasOwnProperty\<close> has no effect, so the calls the chain makes
  give one answer, and the first of them is the one that may throw. The listeners, when
  given, are known by their identities. An exception of \<open>makeProp\<close> ends the loop of
  \<open>setup\<close>.
\<close>

text \<open>
  Modelled from the spec: the constructor \<open>P.OP\<close> is not among the sources. It
  recursively materializes a nested core: the object the field holds is made reactive as
  \<open>ProAct.prob\<close> would make it (\<open>makeProp\<close> hands the constructor the shell and the
  field name only, so no meta-data reaches the nested core); an exception of that is not
  caught, and the property is entered into the core of the shell once its nested core is
  there. This is \<open>new_OP\<close> below. The back-reference that the nested object
  receives is not recorded in the value of the field.
\<close>

function prob_object ::
    "config \<Rightarrow> (string \<times> jsval) list \<Rightarrow> (string \<times> jsval) list \<Rightarrow> (string \<times> meta) list
       \<Rightarrow> (Property option \<times> string list) list \<Rightarrow> unit outcome"
  and setup_loop :: "config \<Rightarrow> shell \<Rightarrow> string list \<Rightarrow> state \<Rightarrow> unit outcome"
  and makeProp ::
    "config \<Rightarrow> shell \<Rightarrow> string \<Rightarrow> nat list option \<Rightarrow> meta option \<Rightarrow> state \<Rightarrow> Property option outcome"
  and makeProp_result :: "config \<Rightarrow> shell \<Rightarrow> string \<Rightarrow> state \<Rightarrow> Property option outcome"
  and new_OP :: "config \<Rightarrow> shell \<Rightarrow> string \<Rightarrow> state \<Rightarrow> Property option outcome"
where
  "prob_object conf own inherited m calls' =
     setup_loop conf
       (defValProp_pro \<lparr>shell_own = own, shell_inherited = inherited, shell_pro = False\<rparr>)
       (for_in (defValProp_pro \<lparr>shell_own = own, shell_inherited = inherited, shell_pro = False\<rparr>))
       \<lparr>core = new_ObjectCore m, registry_calls = calls'\<rparr>"
| "setup_loop conf sh [] st = Return () st"
| "setup_loop conf sh (property' # rest) st =
     (case makeProp conf sh property' None (map_of (core_meta (core st)) property') st of
        Throw e st1 \<Rightarrow> Throw e st1
      | Return r st1 \<Rightarrow> setup_loop conf sh rest st1)"
| "makeProp conf sh property' lsnrs m st =
     (if noprop m then Return None st
      else if keyprops conf \<and> property' \<in> set (keypropList conf)
      then Throw (Error (keyword_message property')) st
      else
        (case makeProp_result conf sh property' st of
           Throw e st1 \<Rightarrow> Throw e st1
         | Return result st1 \<Rightarrow>
             (case (case lsnrs of
                      None \<Rightarrow> Return () st1
                    | Some ls \<Rightarrow>
                        (case map_of (core_properties (core st1)) property' of
                           None \<Rightarrow> Throw TypeErr st1
                         | Some p \<Rightarrow>
                             Return ()
                               (st1\<lparr>core := ObjectCore (core_meta (core st1))
                                   (assign property'
                                      (Prop (prop_kind p) (prop_name p) (change p @ ls) (nested p))
                                      (core_properties (core st1)))\<rparr>)))
              of Throw e st2 \<Rightarrow> Throw e st2
               | Return u st2 \<Rightarrow>
                   (if truthy_meta m \<and> registry conf
                    then Return result
                           (st2\<lparr>registry_calls := registry_calls st2 @
                              [(result, case m of Some (MetaArray ms) \<Rightarrow> ms
                                                | Some (MetaString s) \<Rightarrow> [s]
                                                | None \<Rightarrow> [])]\<rparr>)
                    else Return result st2))))"
| "makeProp_result conf sh property' st =
     (case hasOwnProperty conf sh property' of
        Inl e \<Rightarrow> Throw e st
      | Inr own \<Rightarrow>
          if own \<and> (get_field sh property' = VNull \<or> get_field sh property' = VUndefined)
          then new_Property NP property' st
          else if own \<and> \<not> isF (get_field sh property')
                  \<and> \<not> isA (get_field sh property') \<and> \<not> isO (get_field sh property')
          then new_Property P property' st
          else if own \<and> isF (get_field sh property')
          then new_Property FP property' st
          else if own \<and> isA (get_field sh property')
          then new_Property AP property' st
          else if own \<and> isO (get_field sh property')
          then new_OP conf sh property' st
          else Return None st)"
| "new_OP conf sh property' st =
     (case get_field sh property' of
        VObject own inherited \<Rightarrow>
          (case prob_object conf own inherited [] (registry_calls st) of
             Throw e st1 \<Rightarrow> Throw e (st\<lparr>registry_calls := registry_calls st1\<rparr>)
           | Return u st1 \<Rightarrow>
               Return (Some (Prop OP property' [] (Some (core st1))))
                 \<lparr>core = ObjectCore (core_meta (core st))
                           (assign property' (Prop OP property' [] (Some (core st1)))
                              (core_properties (core st))),
                  registry_calls = registry_calls st1\<rparr>)
      | _ \<Rightarrow>
          Return (Some (Prop OP property' [] None))
            (st\<lparr>core := ObjectCore (core_meta (core st))
                           (assign property' (Prop OP property' [] None)
                              (core_properties (core st)))\<rparr>))"
  by pat_completeness auto
termination
  apply (relation "measures [
        (\<lambda>x. case x of
            Inl (Inl (conf, own, inh, _)) \<Rightarrow> size (VObject own inh)
          | Inl (Inr (conf, sh, _)) \<Rightarrow> size (VObject (shell_own sh) (shell_inherited sh))
          | Inr (Inl (conf, sh, _)) \<Rightarrow> size (VObject (shell_own sh) (shell_inherited sh))
          | Inr (Inr (Inl (conf, sh, _))) \<Rightarrow> size (VObject (shell_own sh) (shell_inherited sh))
          | Inr (Inr (Inr (conf, sh, _))) \<Rightarrow> size (VObject (shell_own sh) (shell_inherited sh))),
        (\<lambda>x. case x of
            Inl (Inl _) \<Rightarrow> 4
          | Inl (Inr _) \<Rightarrow> 3
          | Inr (Inl _) \<Rightarrow> 2
          | Inr (Inr (Inl _)) \<Rightarrow> 1
          | Inr (Inr (Inr _)) \<Rightarrow> 0),
        (\<lambda>x. case x of
            Inl (Inr (conf, sh, ks, _)) \<Rightarrow> length ks
          | _ \<Rightarrow> 0)]")
  apply (simp_all add: defValProp_pro_def)
  apply (auto dest: get_field_size)
  done

declare prob_object.simps [simp del]
declare setup_loop.simps [simp del]
declare makeProp.simps [simp del]
declare makeProp_result.simps [simp del]
declare new_OP.simps [simp del]

text \<open>
  \<open>ProAct.prob\<close>. It returns a \<open>ProAct.Val\<close> around a value that is \<open>null\<close> or neither
  an object nor an array, a \<open>ProAct.Array\<close> around an array, and else the object itself,
  now with its back-reference and its core; or it throws what \<open>core.prob()\<close> throws, and
  the shell and the core are left as they are then.
\<close>

datatype reactive =
    ValOf jsval
  | ArrayOf "jsval list"
  | ObjectItself shell state
  | Thrown error shell state

definition prob :: "config \<Rightarrow> jsval \<Rightarrow> (string \<times> meta) list \<Rightarrow> reactive" where
  "prob conf object m =
     (if object = VNull \<or> (\<not> isO object \<and> \<not> isArray object) then ValOf object
      else
        (case object of
           VArray xs \<Rightarrow> ArrayOf xs
         | VObject own inherited \<Rightarrow>
             (case prob_object conf own inherited m [] of
                Throw e st \<Rightarrow>
                  Thrown e
                    (defValProp_pro \<lparr>shell_own = own, shell_inherited = inherited, shell_pro = False\<rparr>) st
              | Return u st \<Rightarrow>
                  ObjectItself
                    (defValProp_pro \<lparr>shell_own = own, shell_inherited = inherited, shell_pro = False\<rparr>) st)
         | _ \<Rightarrow> ValOf object))"

text \<open>
  The classification in the words of the specification, in its order of precedence:
  \<open>null\<close> or \<open>undefined\<close>, then a function, then an array, then a plain object,
  otherwise a scalar.
\<close>

fun classify_spec :: "jsval \<Rightarrow> PropertyKind" where
  "classify_spec VNull = NP"
| "classify_spec VUndefined = NP"
| "classify_spec (VFunction _) = FP"
| "classify_spec (VArray _) = AP"
| "classify_spec (VObject _ _) = OP"
| "classify_spec _ = P"

text \<open>
  A shell has the \<open>hasOwnProperty\<close> of \<open>Object.prototype\<close> if none of its fields, own or
  inherited, has that name.
\<close>

definition plain_hasOwnProperty :: "shell \<Rightarrow> bool" where
  "plain_hasOwnProperty sh =
     (''hasOwnProperty'' \<notin> set (map fst (shell_own sh @ shell_inherited sh)))"

text \<open>
  A configuration with keyword protection and the reserved word \<open>p\<close>, no registry, and
  functions that return \<open>undefined\<close>. The shells
  \<open>{a: null, b: 5, c: () => {}, d: [], e: {}}\<close>, \<open>{a: 1, p: 2, b: 3}\<close>, \<open>{p: 2}\<close>,
  \<open>{n: {x: 1}}\<close> and \<open>{hasOwnProperty: 1, p: 2}\<close>.
\<close>

definition protecting :: config where
  "protecting = \<lparr> keyprops = True, keypropList = [''p''], registry = False,
                  call = (\<lambda>f k. Inr VUndefined) \<rparr>"

definition example_shell :: jsval where
  "example_shell =
     VObject [(''a'', VNull), (''b'', VNum 5), (''c'', VFunction 0), (''d'', VArray []),
              (''e'', VObject [] [])] []"

definition reserved_shell :: jsval where
  "reserved_shell = VObject [(''a'', VNum 1), (''p'', VNum 2), (''b'', VNum 3)] []"

definition reserved_only_shell :: jsval where
  "reserved_only_shell = VObject [(''p'', VNum 2)] []"

definition nesting_shell :: jsval where
  "nesting_shell = VObject [(''n'', VObject [(''x'', VNum 1)] [])] []"

definition shadowing_shell :: jsval where
  "shadowing_shell = VObject [(''hasOwnProperty'', VNum 1), (''p'', VNum 2)] []"

text \<open>The properties of the core, by field, when \<open>ProAct.prob\<close> returns the object.\<close>

definition properties_of :: "reactive \<Rightarrow> (string \<times> Property) list option" where
  "properties_of r =
     (case r of
        ObjectItself sh st \<Rightarrow> Some (core_properties (core st))
      | _ \<Rightarrow> None)"

section \<open>Properties of the observables\<close>

text \<open>
  C10. An observable whose \<open>listeners\<close> and \<open>errListeners\<close> are empty and whose
  \<open>parent\<close> is \<open>null\<close> does nothing on \<open>update\<close>: the call returns at once, with any
  fuel, and the world is the one it started from, so no event was allocated, nothing was
  queued and no batch was opened.
\<close>

theorem update_noop_fast_path:
  "listeners (observables s this) = [] \<Longrightarrow> errListeners (observables s this) = [] \<Longrightarrow>
   parent (observables s this) = Null \<Longrightarrow> update fuel this source callbacks s = Returns s"
  by (simp add: update.simps)

theorem update_noop_fast_path_witness:
  "listeners (observables empty_world 0) = [] \<and> errListeners (observables empty_world 0) = [] \<and>
   parent (observables empty_world 0) = Null \<and>
   update 0 0 (JNum 1) None empty_world = Returns empty_world"
  using update_noop_fast_path [of empty_world 0 0 "JNum 1" None]
  by (simp add: empty_world_def new_Observable_def)

subsection \<open>Edges: \<open>into\<close> and \<open>offSource\<close>\<close>

lemma two_streams_facts:
  "kind (observables two_streams 1) = Stream"
  "listeners (observables two_streams 0) = []"
  "errListeners (observables two_streams 0) = []"
  "sources (observables two_streams 1) = []"
  by (simp_all add: two_streams_def new_Stream_def empty_world_def new_Observable_def)

lemma busy_source_facts:
  "listeners (observables busy_source 0) = [StreamListener 1, Function 11 None]"
  "errListeners (observables busy_source 0) = [StreamErrListener 1, Function 12 None]"
  "listener (observables busy_source 2) = Null"
  "errListener (observables busy_source 2) = Null"
  by (simp_all add: busy_source_def two_streams_def new_Stream_def empty_world_def
      new_Observable_def on_def onErr_def makeListener_def makeErrListener_def Let_def)

lemma remove_append_fresh: "x \<notin> set xs \<Longrightarrow> remove (xs @ [x]) x = xs"
  by (simp add: remove_def remove1_append)

lemma into_single_listeners:
  "listeners (observables (into N [S] s) S) = listeners (observables s S) @ [fst (makeListener N s)]"
  by (cases "kind (observables s N)"; cases "N = S")
     (simp_all add: on_def onErr_def makeListener_def makeErrListener_def Let_def)

lemma into_single_errListeners:
  "errListeners (observables (into N [S] s) S) = errListeners (observables s S) @ [fst (makeErrListener N s)]"
  by (cases "kind (observables s N)"; cases "N = S")
     (simp_all add: on_def onErr_def makeListener_def makeErrListener_def Let_def)

lemma into_single_sources:
  "sources (observables (into N [S] s) N) = sources (observables s N) @ [S]"
  by (cases "kind (observables s N)"; cases "N = S")
     (simp_all add: on_def onErr_def makeListener_def makeErrListener_def Let_def)

lemma into_single_listener:
  "listener (observables (into N [S] s) N) =
     (case kind (observables s N) of Observable \<Rightarrow> listener (observables s N) | Stream \<Rightarrow> fst (makeListener N s))"
  by (cases "kind (observables s N)"; cases "N = S")
     (simp_all add: on_def onErr_def makeListener_def makeErrListener_def Let_def)

lemma into_single_errListener:
  "errListener (observables (into N [S] s) N) =
     (case kind (observables s N) of Observable \<Rightarrow> errListener (observables s N) | Stream \<Rightarrow> fst (makeErrListener N s))"
  by (cases "kind (observables s N)"; cases "N = S")
     (simp_all add: on_def onErr_def makeListener_def makeErrListener_def Let_def)

lemma makeListener_Stream_truthy:
  "kind (observables s N) = Stream \<Longrightarrow> truthy_cb (fst (makeListener N s))"
  by (simp add: makeListener_def Let_def)

lemma makeErrListener_Stream_truthy:
  "kind (observables s N) = Stream \<Longrightarrow> truthy_cb (fst (makeErrListener N s))"
  by (simp add: makeErrListener_def Let_def)

lemma offSource_listener: "listener (observables (offSource N S t) N) = listener (observables t N)"
  by (cases "N = S") (simp_all add: offSource_def off_def offErr_def Let_def)

lemma offSource_errListener: "errListener (observables (offSource N S t) N) = errListener (observables t N)"
  by (cases "N = S") (simp_all add: offSource_def off_def offErr_def Let_def)

lemma offSource_sources: "sources (observables (offSource N S t) N) = remove (sources (observables t N)) S"
  by (cases "N = S") (simp_all add: offSource_def off_def offErr_def Let_def)

lemma offSource_listeners:
  "listeners (observables (offSource N S t) S) =
     (if truthy_cb (listener (observables t N)) then remove (listeners (observables t S)) (listener (observables t N)) else [])"
  by (cases "N = S") (simp_all add: offSource_def off_def offErr_def Let_def)

lemma offSource_errListeners:
  "errListeners (observables (offSource N S t) S) =
     (if truthy_cb (errListener (observables t N)) then remove (errListeners (observables t S)) (errListener (observables t N)) else [])"
  by (cases "N = S") (simp_all add: offSource_def off_def offErr_def Let_def)



text \<open>
  C9. An observable \<open>this\<close> whose \<open>listener\<close> field is \<open>null\<close> calls \<open>source.off(null)\<close>
  in \<open>offSource\<close>, which is the clear-all branch of \<open>off\<close>: afterwards the \<open>listeners\<close>
  of the source are empty, whoever registered them. With a \<open>null\<close> \<open>errListener\<close> the
  same happens to the \<open>errListeners\<close> of the source through \<open>offErr(null)\<close>.
\<close>

theorem offSource_null_listener_clears_source:
  "(listener (observables s this) = Null \<longrightarrow>
      listeners (observables (offSource this source s) source) = []) \<and>
   (errListener (observables s this) = Null \<longrightarrow>
      errListeners (observables (offSource this source s) source) = [])"
  by (simp add: offSource_listeners offSource_errListeners)

theorem offSource_null_listener_clears_source_witness:
  "listener (observables busy_source 2) = Null \<and> errListener (observables busy_source 2) = Null \<and>
   listeners (observables busy_source 0) = [StreamListener 1, Function 11 None] \<and>
   errListeners (observables busy_source 0) = [StreamErrListener 1, Function 12 None] \<and>
   listeners (observables (offSource 2 0 busy_source) 0) = [] \<and>
   errListeners (observables (offSource 2 0 busy_source) 0) = []"
  using offSource_null_listener_clears_source [of busy_source 2 0] busy_source_facts by simp

text \<open>
  C8 as stated fails where the edge exists already: after \<open>N.into(S)\<close> twice, one
  \<open>N.offSource(S)\<close> removes one entry of each list, and the other stays. Here \<open>N\<close> is the
  stream 1 and \<open>S\<close> the stream 0.
\<close>

theorem into_offSource_existing_edge_counterexample:
  "StreamListener 1 \<in> set (listeners (observables (offSource 1 0 (into 1 [0] (into 1 [0] two_streams))) 0)) \<and>
   StreamErrListener 1 \<in> set (errListeners (observables (offSource 1 0 (into 1 [0] (into 1 [0] two_streams))) 0)) \<and>
   listener (observables (offSource 1 0 (into 1 [0] (into 1 [0] two_streams))) 1) = StreamListener 1 \<and>
   errListener (observables (offSource 1 0 (into 1 [0] (into 1 [0] two_streams))) 1) = StreamErrListener 1 \<and>
   0 \<in> set (sources (observables (offSource 1 0 (into 1 [0] (into 1 [0] two_streams))) 1))"
  by (simp add: two_streams_def new_Stream_def empty_world_def new_Observable_def offSource_def
      off_def offErr_def on_def onErr_def makeListener_def makeErrListener_def Let_def remove_def)

text \<open>
  C8, amended. If, before the call, the listeners of \<open>S\<close> do not hold the listener of
  \<open>N\<close>, the error listeners of \<open>S\<close> do not hold the error listener of \<open>N\<close>, and the
  sources of \<open>N\<close> do not hold \<open>S\<close> (a base observable having its two listener fields
  \<open>null\<close>, as its constructor leaves them), then after \<open>N.into(S)\<close> followed by
  \<open>N.offSource(S)\<close> the same three facts hold again: both directions of the edge are gone.
\<close>

theorem into_offSource_round_trip:
  assumes "fst (makeListener N s) \<notin> set (listeners (observables s S))"
      and "fst (makeErrListener N s) \<notin> set (errListeners (observables s S))"
      and "S \<notin> set (sources (observables s N))"
      and "kind (observables s N) = Observable \<longrightarrow>
             listener (observables s N) = Null \<and> errListener (observables s N) = Null"
  shows "listener (observables (offSource N S (into N [S] s)) N)
           \<notin> set (listeners (observables (offSource N S (into N [S] s)) S)) \<and>
         errListener (observables (offSource N S (into N [S] s)) N)
           \<notin> set (errListeners (observables (offSource N S (into N [S] s)) S)) \<and>
         S \<notin> set (sources (observables (offSource N S (into N [S] s)) N))"
proof (cases "kind (observables s N)")
  case Observable
  with assms(4) have "listener (observables s N) = Null" "errListener (observables s N) = Null"
    by simp_all
  with Observable assms(3) show ?thesis
    by (simp add: offSource_listeners offSource_errListeners offSource_sources
        into_single_listener into_single_errListener into_single_sources remove_append_fresh del: into.simps)
next
  case Stream
  then have "truthy_cb (fst (makeListener N s))" "truthy_cb (fst (makeErrListener N s))"
    by (simp_all add: makeListener_Stream_truthy makeErrListener_Stream_truthy)
  with Stream assms(1-3) show ?thesis
    by (simp add: offSource_listeners offSource_errListeners offSource_sources offSource_listener
        offSource_errListener into_single_listeners into_single_errListeners
        into_single_listener into_single_errListener into_single_sources remove_append_fresh del: into.simps)
qed

theorem into_offSource_round_trip_witness:
  "StreamListener 1 \<notin> set (listeners (observables (offSource 1 0 (into 1 [0] two_streams)) 0)) \<and>
   StreamErrListener 1 \<notin> set (errListeners (observables (offSource 1 0 (into 1 [0] two_streams)) 0)) \<and>
   0 \<notin> set (sources (observables (offSource 1 0 (into 1 [0] two_streams)) 1)) \<and>
   listener (observables (offSource 1 0 (into 1 [0] two_streams)) 1) = StreamListener 1 \<and>
   errListener (observables (offSource 1 0 (into 1 [0] two_streams)) 1) = StreamErrListener 1"
  using into_offSource_round_trip [of 1 two_streams 0]
  by (simp add: two_streams_facts offSource_listener offSource_errListener
      into_single_listener into_single_errListener makeListener_def makeErrListener_def
      two_streams_def new_Stream_def empty_world_def new_Observable_def del: into.simps)


subsection \<open>Deferring a listener\<close>

lemma queued_push: "queued cb (push cb args s) = Suc (queued cb s)"
  by (simp add: queued_def push_def)

lemma queued_pushOnce: "queued cb (pushOnce cb args s) = (if queued cb s = 0 then 1 else queued cb s)"
proof -
  have a: "filter (\<lambda>e. fst e = cb) (map (\<lambda>e. if fst e = cb then (cb, args) else e) q)
           = map (\<lambda>e. (cb, args)) (filter (\<lambda>e. fst e = cb) q)" for q :: "(callback \<times> val list) list"
    by (induction q) auto
  have b: "cb \<in> set (map fst q) \<longleftrightarrow> filter (\<lambda>e. fst e = cb) q \<noteq> []" for q :: "(callback \<times> val list) list"
    by (induction q) auto
  show ?thesis
    using b[of "flow_queue s"] by (auto simp: queued_def pushOnce_def push_def a)
qed

lemma defer_twice_stream:
  "calls_of (flow_run 2 (\<lambda>s. and_then (defer_method 0 (JNum 1) (Function 7 None) s)
                                (defer_method 0 (JNum 2) (Function 7 None))) stream_and_base)
     = Some [(7, [JNum 1]), (7, [JNum 2])]"
  by (simp add: calls_of_def and_then_def flow_run.simps drain.simps invoke.simps defer_method_def
      defer_Stream_def push_def stream_and_base_def on_def new_Stream_def empty_world_def
      new_Observable_def numeral_2_eq_2)

lemma defer_twice_base:
  "calls_of (flow_run 2 (\<lambda>s. and_then (defer_method 1 (JNum 1) (Function 7 None) s)
                                (defer_method 1 (JNum 2) (Function 7 None))) stream_and_base)
     = Some [(7, [JNum 2])]"
  by (simp add: calls_of_def and_then_def flow_run.simps drain.simps invoke.simps defer_method_def
      defer_Observable_def pushOnce_def push_def stream_and_base_def on_def new_Stream_def empty_world_def
      new_Observable_def numeral_2_eq_2)

text \<open>
  C3. \<open>defer\<close> of a stream enqueues a listener that carries a \<open>property\<close> tag with
  \<open>pushOnce\<close> (through the base \<open>defer\<close>) and any other listener with \<open>push\<close>, which adds
  one pending call each time; \<open>defer\<close> of the base always uses \<open>pushOnce\<close>, after which a
  callback that was not queued is queued once and one that was queued is queued as often
  as before. In one batch a plain listener deferred twice by a stream is called twice,
  and deferred twice by a base observable it is called once.
\<close>

theorem defer_discipline:
  "(kind (observables s this) = Stream \<and> truthy_cb cb \<and> property cb = None \<longrightarrow>
      defer_method this event cb s = Returns (push cb [event] s) \<and>
      queued cb (push cb [event] s) = Suc (queued cb s)) \<and>
   (kind (observables s this) = Stream \<and> property cb \<noteq> None \<longrightarrow>
      defer_method this event cb s = Returns (pushOnce cb [event] s)) \<and>
   (kind (observables s this) = Observable \<and> truthy_cb cb \<longrightarrow>
      defer_method this event cb s = Returns (pushOnce cb [event] s)) \<and>
   queued cb (pushOnce cb [event] s) = (if queued cb s = 0 then 1 else queued cb s) \<and>
   calls_of (flow_run 2 (\<lambda>s. and_then (defer_method 0 (JNum 1) (Function 7 None) s)
                                (defer_method 0 (JNum 2) (Function 7 None))) stream_and_base)
     = Some [(7, [JNum 1]), (7, [JNum 2])] \<and>
   calls_of (flow_run 2 (\<lambda>s. and_then (defer_method 1 (JNum 1) (Function 7 None) s)
                                (defer_method 1 (JNum 2) (Function 7 None))) stream_and_base)
     = Some [(7, [JNum 2])]"
proof -
  have general:
    "(kind (observables s this) = Stream \<and> truthy_cb cb \<and> property cb = None \<longrightarrow>
        defer_method this event cb s = Returns (push cb [event] s) \<and>
        queued cb (push cb [event] s) = Suc (queued cb s)) \<and>
     (kind (observables s this) = Stream \<and> property cb \<noteq> None \<longrightarrow>
        defer_method this event cb s = Returns (pushOnce cb [event] s)) \<and>
     (kind (observables s this) = Observable \<and> truthy_cb cb \<longrightarrow>
        defer_method this event cb s = Returns (pushOnce cb [event] s)) \<and>
     queued cb (pushOnce cb [event] s) = (if queued cb s = 0 then 1 else queued cb s)"
    by (cases cb)
       (simp_all add: defer_method_def defer_Stream_def defer_Observable_def queued_push queued_pushOnce)
  from general defer_twice_stream defer_twice_base show ?thesis
    by blast
qed

theorem defer_discipline_witness:
  "defer_method 0 (JNum 1) (Function 7 None) stream_and_base = Returns (push (Function 7 None) [JNum 1] stream_and_base) \<and>
   queued (Function 7 None) (push (Function 7 None) [JNum 1] stream_and_base) = 1 \<and>
   defer_method 0 (JNum 1) (Function 7 (Some 1)) stream_and_base = Returns (pushOnce (Function 7 (Some 1)) [JNum 1] stream_and_base) \<and>
   defer_method 1 (JNum 1) (Function 7 None) stream_and_base = Returns (pushOnce (Function 7 None) [JNum 1] stream_and_base) \<and>
   queued (Function 7 None) (pushOnce (Function 7 None) [JNum 2] (pushOnce (Function 7 None) [JNum 1] stream_and_base)) = 1"
  using defer_discipline [of stream_and_base 0 "Function 7 None" "JNum 1"]
        defer_discipline [of stream_and_base 0 "Function 7 (Some 1)" "JNum 1"]
        defer_discipline [of stream_and_base 1 "Function 7 None" "JNum 1"]
        defer_discipline [of "pushOnce (Function 7 None) [JNum 1] stream_and_base" 1 "Function 7 None" "JNum 2"]
  by (simp add: queued_def pushOnce_def push_def stream_and_base_def on_def new_Stream_def
      empty_world_def new_Observable_def)


subsection \<open>The transform pipeline\<close>

lemma apply_transformation_frame:
  "snd (apply_transformation t v s) = s\<lparr>cells := cells (snd (apply_transformation t v s))\<rparr>"
  by (cases t) (auto split: sum.splits)

lemma transform_loop_frame:
  "snd (transform_loop ts v s) = s\<lparr>cells := cells (snd (transform_loop ts v s))\<rparr>"
proof (induction ts arbitrary: v s)
  case Nil
  then show ?case by simp
next
  case (Cons t ts)
  obtain r s1 where a: "apply_transformation t v s = (r, s1)" by (cases "apply_transformation t v s")
  have f1: "s1 = s\<lparr>cells := cells s1\<rparr>" using apply_transformation_frame[of t v s] a by simp
  show ?case
  proof (cases r)
    case (Inl e)
    with a f1 show ?thesis by simp
  next
    case (Inr v')
    show ?thesis
    proof (cases "v' = BadValue")
      case True
      with a Inr f1 show ?thesis by simp
    next
      case False
      have "snd (transform_loop ts v' s1) = s1\<lparr>cells := cells (snd (transform_loop ts v' s1))\<rparr>"
        by (rule Cons.IH)
      with f1 have "snd (transform_loop ts v' s1) = s\<lparr>cells := cells (snd (transform_loop ts v' s1))\<rparr>"
        by (metis world.update_convs(2) world.surjective)
      with a Inr False show ?thesis by simp
    qed
  qed
qed

lemma transform_loop_append:
  "transform_loop (pre @ rest) v s =
     (case transform_loop pre v s of
        (Inl e, s') \<Rightarrow> (Inl e, s')
      | (Inr v', s') \<Rightarrow>
          if v' = BadValue \<and> pre \<noteq> [] then (Inr v', s') else transform_loop rest v' s')"
  by (induction pre arbitrary: v s) (auto split: prod.splits sum.splits)

lemma filter_concrete:
  "calls_of (trigger_each 1 0 [JNum 3, JNum (- 1), JNum 2] filtered_stream)
     = Some [(7, [JNum 3]), (7, [JNum 2])]"
  by (simp add: calls_of_def and_then_def trigger.simps go.simps update.simps flow_run.simps
      drain.simps invoke.simps willUpdate.simps willUpdate_loop.simps Observable_transform_def
      makeEvent_def defer_method_def defer_Stream_def push_def isRunning_def Let_def
      filtered_stream_def on_def filtering_def transform_def new_Stream_def empty_world_def
      new_Observable_def positive_def)

lemma sum_concrete:
  "calls_of (trigger_each 1 0 [JNum 1, JNum 2, JNum 3] summing_stream)
     = Some [(7, [JNum 1]), (7, [JNum 3]), (7, [JNum 6])]"
  by (simp add: calls_of_def and_then_def trigger.simps go.simps update.simps flow_run.simps
      drain.simps invoke.simps willUpdate.simps willUpdate_loop.simps Observable_transform_def
      makeEvent_def defer_method_def defer_Stream_def push_def isRunning_def Let_def
      summing_stream_def on_def accumulation_def transform_def new_Stream_def empty_world_def
      new_Observable_def add_def)

lemma sum_twice_concrete:
  "calls_of (trigger_each 1 0 [JNum 1, JNum 2, JNum 3] summing_twice_stream)
     = Some [(7, [JNum 1]), (7, [JNum 4]), (7, [JNum 10])]"
  "cells_of (trigger_each 1 0 [JNum 1, JNum 2, JNum 3] summing_twice_stream) 0 = Some (JNum 6)"
  "cells_of (trigger_each 1 0 [JNum 1, JNum 2, JNum 3] summing_twice_stream) 1 = Some (JNum 10)"
  by (simp_all add: calls_of_def cells_of_def and_then_def trigger.simps go.simps update.simps flow_run.simps
      drain.simps invoke.simps willUpdate.simps willUpdate_loop.simps Observable_transform_def
      makeEvent_def defer_method_def defer_Stream_def push_def isRunning_def Let_def
      summing_twice_stream_def on_def accumulation_def transform_def new_Stream_def empty_world_def
      new_Observable_def add_def)


text \<open>
  C5. \<open>filtering(f)\<close> appends its closure to the pipeline of the node. Where the
  pipeline reaches that stage and \<open>f\<close> returns a falsy value, the pipeline yields
  \<open>BadValue\<close> in the world the earlier stages left (the later stages are not applied), and
  \<open>trigger\<close> on a stream returns that world: nothing but the captured variables of earlier
  stages has changed, so no update took place. A stream with \<open>filtering(x => x > 0)\<close>
  triggered with 3, -1 and 2 calls its listener with 3 and with 2.
\<close>

theorem filtering_suppresses:
  "transforms (observables (filtering this f s) this)
     = transforms (observables s this) @ [FilteringClosure f] \<and>
   (transforms (observables s this) = pre @ FilteringClosure f # post \<and>
    transform_loop pre v s = (Inr v', s') \<and> f v' = Inr b \<and> \<not> truthy b \<longrightarrow>
      Observable_transform this v s = (Inr BadValue, s') \<and>
      trigger fuel this v None s = Returns s' \<and>
      s' = s\<lparr>cells := cells s'\<rparr>) \<and>
   calls_of (trigger_each 1 0 [JNum 3, JNum (- 1), JNum 2] filtered_stream)
     = Some [(7, [JNum 3]), (7, [JNum 2])]"
proof -
  have builder: "transforms (observables (filtering this f s) this)
     = transforms (observables s this) @ [FilteringClosure f]"
    by (simp add: filtering_def transform_def)
  have general:
    "Observable_transform this v s = (Inr BadValue, s') \<and>
     trigger fuel this v None s = Returns s' \<and> s' = s\<lparr>cells := cells s'\<rparr>"
    if h: "transforms (observables s this) = pre @ FilteringClosure f # post"
          "transform_loop pre v s = (Inr v', s')" "f v' = Inr b" "\<not> truthy b"
  proof -
    from h have t: "Observable_transform this v s = (Inr BadValue, s')"
      by (simp add: Observable_transform_def transform_loop_append)
    have "s' = s\<lparr>cells := cells s'\<rparr>"
      using transform_loop_frame[of pre v s] h(2) by simp
    with t show ?thesis
      by (simp add: trigger.simps go.simps)
  qed
  with builder filter_concrete show ?thesis by blast
qed

theorem filtering_suppresses_witness:
  "transforms (observables filter_then_sum_stream 0)
     = [] @ FilteringClosure positive # [AccumulationClosure 0 add] \<and>
   transform_loop [] (JNum (- 1)) filter_then_sum_stream = (Inr (JNum (- 1)), filter_then_sum_stream) \<and>
   positive (JNum (- 1)) = Inr (JBool False) \<and> \<not> truthy (JBool False) \<and>
   Observable_transform 0 (JNum (- 1)) filter_then_sum_stream = (Inr BadValue, filter_then_sum_stream) \<and>
   trigger 1 0 (JNum (- 1)) None filter_then_sum_stream = Returns filter_then_sum_stream \<and>
   cells filter_then_sum_stream 0 = JNum 0"
  using filtering_suppresses [of 0 positive filter_then_sum_stream "[]" "[AccumulationClosure 0 add]"
          "JNum (- 1)" "JNum (- 1)" filter_then_sum_stream "JBool False" 1]
  by (simp add: filter_then_sum_stream_def on_def filtering_def accumulation_def transform_def
      new_Stream_def empty_world_def new_Observable_def positive_def Let_def)

text \<open>
  C6. Each call of \<open>accumulation\<close> allocates a variable of its own, set to the seed,
  and appends a closure over it: two calls on one node give two closures over two
  different variables. A closure combines the value of its variable with the incoming
  value, stores the result in its variable and returns it, and leaves every other
  variable as it was. A stream with \<open>accumulation(0, (a, v) => a + v)\<close> triggered with
  1, 2 and 3 calls its listener with 1, 3 and 6; with that accumulation installed twice
  the first variable ends at 6 as before, and the second sums what the first emits:
  1, 4 and 10.
\<close>

theorem accumulation_cells:
  "transforms (observables (accumulation this seed' g (accumulation this seed f s)) this)
     = transforms (observables s this)
         @ [AccumulationClosure (next_cell s) f, AccumulationClosure (Suc (next_cell s)) g] \<and>
   cells (accumulation this seed' g (accumulation this seed f s)) (next_cell s) = seed \<and>
   cells (accumulation this seed' g (accumulation this seed f s)) (Suc (next_cell s)) = seed' \<and>
   (f (cells s c) v = Inr r \<longrightarrow>
      apply_transformation (AccumulationClosure c f) v s = (Inr r, s\<lparr>cells := (cells s)(c := r)\<rparr>)) \<and>
   (c' \<noteq> c \<longrightarrow> cells (snd (apply_transformation (AccumulationClosure c f) v s)) c' = cells s c') \<and>
   calls_of (trigger_each 1 0 [JNum 1, JNum 2, JNum 3] summing_stream)
     = Some [(7, [JNum 1]), (7, [JNum 3]), (7, [JNum 6])] \<and>
   calls_of (trigger_each 1 0 [JNum 1, JNum 2, JNum 3] summing_twice_stream)
     = Some [(7, [JNum 1]), (7, [JNum 4]), (7, [JNum 10])] \<and>
   cells_of (trigger_each 1 0 [JNum 1, JNum 2, JNum 3] summing_twice_stream) 0 = Some (JNum 6) \<and>
   cells_of (trigger_each 1 0 [JNum 1, JNum 2, JNum 3] summing_twice_stream) 1 = Some (JNum 10)"
proof -
  have builder:
    "transforms (observables (accumulation this seed' g (accumulation this seed f s)) this)
       = transforms (observables s this)
           @ [AccumulationClosure (next_cell s) f, AccumulationClosure (Suc (next_cell s)) g]"
    "cells (accumulation this seed' g (accumulation this seed f s)) (next_cell s) = seed"
    "cells (accumulation this seed' g (accumulation this seed f s)) (Suc (next_cell s)) = seed'"
    by (simp_all add: accumulation_def transform_def Let_def)
  have stage:
    "f (cells s c) v = Inr r \<longrightarrow>
       apply_transformation (AccumulationClosure c f) v s = (Inr r, s\<lparr>cells := (cells s)(c := r)\<rparr>)"
    "c' \<noteq> c \<longrightarrow> cells (snd (apply_transformation (AccumulationClosure c f) v s)) c' = cells s c'"
    by (auto split: sum.splits)
  from builder stage sum_concrete sum_twice_concrete show ?thesis
    by blast
qed

theorem accumulation_cells_witness:
  "add (cells summing_stream 0) (JNum 5) = Inr (JNum 5) \<and>
   apply_transformation (AccumulationClosure 0 add) (JNum 5) summing_stream
     = (Inr (JNum 5), summing_stream\<lparr>cells := (cells summing_stream)(0 := JNum 5)\<rparr>) \<and>
   (1::nat) \<noteq> 0 \<and>
   cells (snd (apply_transformation (AccumulationClosure 0 add) (JNum 5) summing_twice_stream)) 1
     = cells summing_twice_stream 1"
  using accumulation_cells [of 0 "JNum 0" add "JNum 0" add empty_world 0 "JNum 5" "JNum 5" 1]
        accumulation_cells [of 0 "JNum 0" add "JNum 0" add summing_stream 0 "JNum 5" "JNum 5" 1]
        accumulation_cells [of 0 "JNum 0" add "JNum 0" add summing_twice_stream 0 "JNum 5" "JNum 5" 1]
  by (simp add: summing_stream_def summing_twice_stream_def on_def accumulation_def transform_def
      new_Stream_def empty_world_def new_Observable_def add_def Let_def)


subsection \<open>One round of \<open>willUpdate\<close>\<close>

lemma defer_method_frame:
  "defer_method this ev cb s = Returns s' \<Longrightarrow> s' = s\<lparr>flow_queue := flow_queue s'\<rparr>"
  by (auto simp: defer_method_def defer_Stream_def defer_Observable_def push_def pushOnce_def
      split: kind.splits if_splits)

lemma defer_method_observables:
  "defer_method this ev cb s = Returns s' \<Longrightarrow> observables s' = observables s"
  using defer_method_frame[of this ev cb s s']
  by (metis world.select_convs(1) world.surjective world.update_convs(6))

lemma makeEvent_observables: "observables (snd (makeEvent this src s)) = observables s"
  by (simp add: makeEvent_def split: kind.splits)

lemma willUpdate_loop_observables_step:
  assumes W: "\<And>k p e t t'. fuel = Suc k \<Longrightarrow> willUpdate k p e None t = Returns t'
                \<Longrightarrow> observables t' = observables t"
  shows "willUpdate_loop fuel this arr len ev i s = Returns s' \<Longrightarrow> observables s' = observables s"
proof (induction "len - i" arbitrary: i s)
  case 0
  then show ?case by (simp add: willUpdate_loop.simps[of fuel this arr len ev i s])
next
  case (Suc n)
  then have lt: "i < len" and n: "n = len - Suc i" by simp_all
  define l where "l = (if i < length (array_get arr s) then array_get arr s ! i else Undefined)"
  from Suc.prems lt obtain s1 where d: "defer_method this ev l s = Returns s1"
    by (simp add: willUpdate_loop.simps[of fuel this arr len ev i s] l_def Let_def split: result.splits)
  have o1: "observables s1 = observables s" using d by (rule defer_method_observables)
  show ?case
  proof (cases "property l")
    case None
    with Suc.prems lt d have "willUpdate_loop fuel this arr len ev (Suc i) s1 = Returns s'"
      by (simp add: willUpdate_loop.simps[of fuel this arr len ev i s] l_def Let_def)
    from Suc.hyps(1)[OF n this] o1 show ?thesis by simp
  next
    case (Some p)
    with Suc.prems lt d obtain k s2 where k: "fuel = Suc k"
      and w: "willUpdate k p ev None s1 = Returns s2"
      and r: "willUpdate_loop fuel this arr len ev (Suc i) s2 = Returns s'"
      by (simp add: willUpdate_loop.simps[of fuel this arr len ev i s] l_def Let_def
          split: nat.splits result.splits)
    from W[OF k w] Suc.hyps(1)[OF n r] o1 show ?thesis by simp
  qed
qed

lemma willUpdate_observables_step:
  assumes L: "\<And>arr len ev i t t'. willUpdate_loop fuel this arr len ev i t = Returns t'
                \<Longrightarrow> observables t' = observables t"
  shows "willUpdate fuel this src cbs s = Returns s' \<Longrightarrow> observables s' = observables s"
  apply (subst (asm) willUpdate.simps)
  apply (simp add: Let_def split: result.splits if_splits)
  using L makeEvent_observables defer_method_observables apply metis
  using L makeEvent_observables apply metis
  done

lemma willUpdate_observables:
  "willUpdate fuel this src cbs s = Returns s' \<Longrightarrow> observables s' = observables s"
proof (induction fuel arbitrary: this src cbs s s')
  case 0
  show ?case
    by (rule willUpdate_observables_step[OF _ 0]) (rule willUpdate_loop_observables_step, simp_all)
next
  case (Suc k)
  show ?case
    by (rule willUpdate_observables_step[OF _ Suc.prems])
       (rule willUpdate_loop_observables_step, use Suc.IH in simp_all)
qed

lemma willUpdate_loop_observables:
  "willUpdate_loop fuel this arr len ev i s = Returns s' \<Longrightarrow> observables s' = observables s"
  by (rule willUpdate_loop_observables_step) (use willUpdate_observables in simp_all)

lemma array_get_cong: "observables s' = observables s \<Longrightarrow> array_get arr s' = array_get arr s"
  by (cases arr) simp_all

lemma willUpdate_loop_unfold:
  assumes "i < len" "i < length (array_get arr s)"
  shows "willUpdate_loop fuel this arr len ev i s =
     (case defer_method this ev (array_get arr s ! i) s of
        Returns s1 \<Rightarrow>
          (case property (array_get arr s ! i) of
             None \<Rightarrow> willUpdate_loop fuel this arr len ev (Suc i) s1
           | Some p \<Rightarrow>
               (case fuel of
                  0 \<Rightarrow> OutOfFuel
                | Suc k \<Rightarrow>
                    (case willUpdate k p ev None s1 of
                       Returns s2 \<Rightarrow> willUpdate_loop fuel this arr len ev (Suc i) s2
                     | Throws e s2 \<Rightarrow> Throws e s2
                     | OutOfFuel \<Rightarrow> OutOfFuel)))
      | Throws e s1 \<Rightarrow> Throws e s1
      | OutOfFuel \<Rightarrow> OutOfFuel)"
  using assms by (subst willUpdate_loop.simps) (simp add: Let_def)

lemma willUpdate_loop_eq_defer_each:
  assumes "len \<le> length (array_get arr s)" "i \<le> len"
  shows "willUpdate_loop fuel this arr len ev i s
           = defer_each fuel this ev (drop i (take len (array_get arr s))) s"
  using assms
proof (induction "len - i" arbitrary: i s)
  case 0
  then show ?case by (subst willUpdate_loop.simps) simp
next
  case (Suc n)
  then have lt: "i < len" and n: "n = len - Suc i" and il: "i < length (array_get arr s)" by simp_all
  let ?xs = "array_get arr s"
  have dr: "drop i (take len ?xs) = ?xs ! i # drop (Suc i) (take len ?xs)"
    using lt il by (metis Cons_nth_drop_Suc length_take min.absorb2 nth_take Suc.prems(1))
  have ih: "willUpdate_loop fuel this arr len ev (Suc i) t
              = defer_each fuel this ev (drop (Suc i) (take len ?xs)) t"
    if "observables t = observables s" for t
  proof -
    have "array_get arr t = ?xs" using that by (rule array_get_cong)
    with Suc.hyps(1)[OF n, of t] Suc.prems lt show ?thesis by simp
  qed
  have step: "(case property (?xs ! i) of
             None \<Rightarrow> willUpdate_loop fuel this arr len ev (Suc i) s1
           | Some p \<Rightarrow>
               (case fuel of
                  0 \<Rightarrow> OutOfFuel
                | Suc k \<Rightarrow>
                    (case willUpdate k p ev None s1 of
                       Returns s2 \<Rightarrow> willUpdate_loop fuel this arr len ev (Suc i) s2
                     | Throws e s2 \<Rightarrow> Throws e s2
                     | OutOfFuel \<Rightarrow> OutOfFuel)))
        = (case property (?xs ! i) of
                None \<Rightarrow> defer_each fuel this ev (drop (Suc i) (take len ?xs)) s1
              | Some p \<Rightarrow>
                  (case fuel of
                     0 \<Rightarrow> OutOfFuel
                   | Suc k \<Rightarrow> and_then (willUpdate k p ev None s1)
                        (defer_each fuel this ev (drop (Suc i) (take len ?xs)))))"
    if d: "defer_method this ev (?xs ! i) s = Returns s1" for s1
  proof -
    have o1: "observables s1 = observables s" using d by (rule defer_method_observables)
    have w: "(case willUpdate k p ev None s1 of
                       Returns s2 \<Rightarrow> willUpdate_loop fuel this arr len ev (Suc i) s2
                     | Throws e s2 \<Rightarrow> Throws e s2
                     | OutOfFuel \<Rightarrow> OutOfFuel)
             = and_then (willUpdate k p ev None s1) (defer_each fuel this ev (drop (Suc i) (take len ?xs)))"
      for k p
    proof (cases "willUpdate k p ev None s1")
      case (Returns s2)
      then have "observables s2 = observables s" using willUpdate_observables o1 by metis
      with Returns show ?thesis by (simp add: and_then_def ih)
    qed (simp_all add: and_then_def)
    show ?thesis
      by (simp add: ih[OF o1] w split: option.splits nat.splits)
  qed
  show ?case
    unfolding willUpdate_loop_unfold[OF lt il] dr
    by (cases "defer_method this ev (?xs ! i) s") (simp_all add: and_then_def step)
qed

lemma willUpdate_eq_spec: "willUpdate fuel this source list s = willUpdate_spec fuel this source list s"
proof -
  let ?arr = "case list of Some arr \<Rightarrow> arr | None \<Rightarrow> ListenersOf this"
  let ?es = "makeEvent this source s"
  have g: "array_get ?arr (snd ?es) = array_get ?arr s"
    by (rule array_get_cong) (rule makeEvent_observables)
  have snap: "array_get ?arr s = (case list of Some arr \<Rightarrow> array_get arr s | None \<Rightarrow> listeners (observables s this))"
    by (cases list) simp_all
  have "willUpdate_loop fuel this ?arr (length (array_get ?arr s)) (fst ?es) 0 (snd ?es)
          = defer_each fuel this (fst ?es) (array_get ?arr s) (snd ?es)"
    using willUpdate_loop_eq_defer_each[of "length (array_get ?arr s)" ?arr "snd ?es" 0 fuel this "fst ?es"] g
    by simp
  then show ?thesis
    unfolding willUpdate_spec_def snap[symmetric]
    by (simp add: willUpdate.simps[of fuel this source list s] Let_def and_then_def split: result.splits)
qed


lemma pushOnce_queue:
  "(cb, args) \<in> set (flow_queue (pushOnce cb args s))"
  "x \<in> set (flow_queue s) \<Longrightarrow> snd x = args \<Longrightarrow> x \<in> set (flow_queue (pushOnce cb args s))"
proof -
  show "(cb, args) \<in> set (flow_queue (pushOnce cb args s))"
    by (auto simp: pushOnce_def push_def image_iff intro!: bexI)
  show "x \<in> set (flow_queue s) \<Longrightarrow> snd x = args \<Longrightarrow> x \<in> set (flow_queue (pushOnce cb args s))"
    by (cases x) (auto simp: pushOnce_def push_def image_iff intro!: bexI)
qed

lemma defer_method_queue:
  assumes "defer_method this ev l s = Returns s1"
  shows "(l, [ev]) \<in> set (flow_queue s1)"
    and "x \<in> set (flow_queue s) \<Longrightarrow> snd x = [ev] \<Longrightarrow> x \<in> set (flow_queue s1)"
    and "next_event s1 = next_event s"
proof -
  from assms have c: "s1 = push l [ev] s \<or> s1 = pushOnce l [ev] s"
    by (auto simp: defer_method_def defer_Stream_def defer_Observable_def split: kind.splits if_splits)
  then show "(l, [ev]) \<in> set (flow_queue s1)"
    using pushOnce_queue(1)[of l "[ev]" s] by (auto simp: push_def)
  from c show "x \<in> set (flow_queue s) \<Longrightarrow> snd x = [ev] \<Longrightarrow> x \<in> set (flow_queue s1)"
    using pushOnce_queue(2)[of x s "[ev]" l] by (auto simp: push_def)
  from c show "next_event s1 = next_event s"
    by (auto simp: push_def pushOnce_def)
qed

lemma defer_each_plain:
  assumes "\<forall>l\<in>set ls. property l = None" "defer_each fuel this ev ls s = Returns s'"
  shows "next_event s' = next_event s \<and>
         (\<forall>l\<in>set ls. (l, [ev]) \<in> set (flow_queue s')) \<and>
         (\<forall>x\<in>set (flow_queue s). snd x = [ev] \<longrightarrow> x \<in> set (flow_queue s'))"
  using assms
proof (induction ls arbitrary: s)
  case Nil
  then show ?case by simp
next
  case (Cons l ls)
  from Cons.prems obtain s1 where d: "defer_method this ev l s = Returns s1"
    and r: "defer_each fuel this ev ls s1 = Returns s'"
    by (auto simp: and_then_def split: result.splits)
  from Cons.prems(1) have "\<forall>l\<in>set ls. property l = None" by simp
  from Cons.IH[OF this r] defer_method_queue[OF d] show ?case
    by auto
qed

lemma defer_each_observables:
  "defer_each fuel this ev ls s = Returns s' \<Longrightarrow> observables s' = observables s"
proof (induction ls arbitrary: s)
  case Nil
  then show ?case by simp
next
  case (Cons l ls)
  from Cons.prems obtain s1 where d: "defer_method this ev l s = Returns s1"
    by (auto simp: and_then_def split: result.splits)
  have o1: "observables s1 = observables s" using d by (rule defer_method_observables)
  show ?case
  proof (cases "property l")
    case None
    with Cons.prems d have "defer_each fuel this ev ls s1 = Returns s'"
      by (simp add: and_then_def)
    from Cons.IH[OF this] o1 show ?thesis by simp
  next
    case (Some p)
    with Cons.prems d obtain k s2 where "willUpdate k p ev None s1 = Returns s2"
      and r: "defer_each fuel this ev ls s2 = Returns s'"
      by (auto simp: and_then_def split: nat.splits result.splits)
    with Cons.IH[OF r] willUpdate_observables o1 show ?thesis by metis
  qed
qed

lemma willUpdate_one_event:
  assumes plain: "\<forall>l\<in>set (case list of Some arr \<Rightarrow> array_get arr s | None \<Rightarrow> listeners (observables s this)).
                    property l = None"
      and ret: "willUpdate fuel this source list s = Returns s'"
  shows "next_event s' = next_event (snd (makeEvent this source s)) \<and>
         (\<forall>l\<in>set (case list of Some arr \<Rightarrow> array_get arr s | None \<Rightarrow> listeners (observables s this)).
            (l, [fst (makeEvent this source s)]) \<in> set (flow_queue s')) \<and>
         (truthy_cb (parent (observables s this)) \<longrightarrow>
            (parent (observables s this), [fst (makeEvent this source s)]) \<in> set (flow_queue s'))"
proof -
  let ?ls = "case list of Some arr \<Rightarrow> array_get arr s | None \<Rightarrow> listeners (observables s this)"
  let ?es = "makeEvent this source s"
  from ret obtain s2 where
    e: "defer_each fuel this (fst ?es) ?ls (snd ?es) = Returns s2" and
    p: "(if truthy_cb (parent (observables s2 this))
         then defer_method this (fst ?es) (parent (observables s2 this)) s2 else Returns s2) = Returns s'"
    by (auto simp: willUpdate_eq_spec willUpdate_spec_def Let_def and_then_def split: result.splits)
  note de = defer_each_plain[OF plain e]
  have o: "observables s2 = observables s"
    using defer_each_observables[OF e] makeEvent_observables by simp
  show ?thesis
  proof (cases "truthy_cb (parent (observables s this))")
    case True
    with p o have d: "defer_method this (fst ?es) (parent (observables s this)) s2 = Returns s'"
      by simp
    from de defer_method_queue[OF d] True show ?thesis by auto
  next
    case False
    with p o have "s' = s2" by simp
    with de False show ?thesis by simp
  qed
qed

text \<open>
  C4. \<open>willUpdate\<close> of the source is the \<open>willUpdate\<close> of the specification's words:
  one call of \<open>makeEvent\<close>, whose event goes to every listener of the target list as it
  was when the round started. The loop runs to the length read before it: where the
  array has grown since (\<open>later\<close>), it defers the listeners that were there (\<open>xs\<close>) and
  no other. Where no listener of the target list carries a \<open>property\<close> tag and the call
  returns, a base observable has allocated exactly one event and a stream none (its event
  is the source itself), and every listener of the target list is queued with that one
  event as its argument.
\<close>

theorem willUpdate_one_shared_event:
  "willUpdate fuel this source list s = willUpdate_spec fuel this source list s \<and>
   (array_get arr s = xs @ later \<longrightarrow>
      willUpdate_loop fuel this arr (length xs) event 0 s = defer_each fuel this event xs s) \<and>
   ((\<forall>l\<in>set (case list of Some a \<Rightarrow> array_get a s | None \<Rightarrow> listeners (observables s this)).
        property l = None) \<and>
    willUpdate fuel this source list s = Returns s' \<longrightarrow>
      next_event s' = (case kind (observables s this) of
                         Observable \<Rightarrow> Suc (next_event s) | Stream \<Rightarrow> next_event s) \<and>
      (\<forall>l\<in>set (case list of Some a \<Rightarrow> array_get a s | None \<Rightarrow> listeners (observables s this)).
         (l, [case kind (observables s this) of
                Observable \<Rightarrow> Event (next_event s) source this | Stream \<Rightarrow> source])
           \<in> set (flow_queue s')))"
proof -
  have snapshot: "willUpdate_loop fuel this arr (length xs) event 0 s = defer_each fuel this event xs s"
    if "array_get arr s = xs @ later"
    using willUpdate_loop_eq_defer_each[of "length xs" arr s 0 fuel this event] that by simp
  have ev: "fst (makeEvent this source s) = (case kind (observables s this) of
                Observable \<Rightarrow> Event (next_event s) source this | Stream \<Rightarrow> source)"
    "next_event (snd (makeEvent this source s)) = (case kind (observables s this) of
                         Observable \<Rightarrow> Suc (next_event s) | Stream \<Rightarrow> next_event s)"
    by (simp_all add: makeEvent_def split: kind.splits)
  have one:
    "next_event s' = (case kind (observables s this) of
                         Observable \<Rightarrow> Suc (next_event s) | Stream \<Rightarrow> next_event s) \<and>
      (\<forall>l\<in>set (case list of Some a \<Rightarrow> array_get a s | None \<Rightarrow> listeners (observables s this)).
         (l, [case kind (observables s this) of
                Observable \<Rightarrow> Event (next_event s) source this | Stream \<Rightarrow> source])
           \<in> set (flow_queue s'))"
    if "\<forall>l\<in>set (case list of Some a \<Rightarrow> array_get a s | None \<Rightarrow> listeners (observables s this)).
        property l = None" "willUpdate fuel this source list s = Returns s'"
    using willUpdate_one_event[OF that] unfolding ev[symmetric] by blast
  from willUpdate_eq_spec[of fuel this source list s] snapshot one
  show ?thesis by blast
qed


theorem willUpdate_one_shared_event_witness:
  "listeners (observables base_with_two 1) = [Function 7 None, Function 8 None] \<and>
   willUpdate 0 1 (JNum 5) None base_with_two
     = Returns (base_with_two\<lparr>next_event := 1,
          flow_queue := [(Function 7 None, [Event 0 (JNum 5) 1]), (Function 8 None, [Event 0 (JNum 5) 1])]\<rparr>) \<and>
   willUpdate_spec 0 1 (JNum 5) None base_with_two = willUpdate 0 1 (JNum 5) None base_with_two \<and>
   array_get (ListenersOf 1) (on 1 (ACb (Function 9 None)) Undefined None base_with_two)
     = [Function 7 None, Function 8 None] @ [Function 9 None] \<and>
   willUpdate_loop 0 1 (ListenersOf 1) 2 (JNum 5) 0 (on 1 (ACb (Function 9 None)) Undefined None base_with_two)
     = Returns ((on 1 (ACb (Function 9 None)) Undefined None base_with_two)
          \<lparr>flow_queue := [(Function 7 None, [JNum 5]), (Function 8 None, [JNum 5])]\<rparr>)"
  using willUpdate_one_shared_event [of 0 1 "JNum 5" None base_with_two "ListenersOf 1"
          "[Function 7 None, Function 8 None]" "[]" "JNum 5"
          "base_with_two\<lparr>next_event := 1,
             flow_queue := [(Function 7 None, [Event 0 (JNum 5) 1]), (Function 8 None, [Event 0 (JNum 5) 1])]\<rparr>"]
        willUpdate_one_shared_event [of 0 1 "JNum 5" None
          "on 1 (ACb (Function 9 None)) Undefined None base_with_two" "ListenersOf 1"
          "[Function 7 None, Function 8 None]" "[Function 9 None]" "JNum 5" base_with_two]
  by (simp add: base_with_two_def on_def empty_world_def new_Observable_def willUpdate_spec_def
      makeEvent_def and_then_def defer_method_def defer_Observable_def pushOnce_def push_def Let_def
      willUpdate.simps willUpdate_loop.simps)


subsection \<open>An exception in the pipeline of a stream\<close>

lemma defer_each_stream_plain:
  assumes "kind (observables s this) = Stream"
  shows "defer_each fuel this ev (map (\<lambda>i. Function i None) ids) s
           = Returns (s\<lparr>flow_queue := flow_queue s @ map (\<lambda>i. (Function i None, [ev])) ids\<rparr>)"
  using assms
proof (induction ids arbitrary: s)
  case Nil
  then show ?case by simp
next
  case (Cons i ids)
  let ?s1 = "push (Function i None) [ev] s"
  have d: "defer_method this ev (Function i None) s = Returns ?s1"
    using Cons.prems by (simp add: defer_method_def defer_Stream_def)
  have k: "kind (observables ?s1 this) = Stream" using Cons.prems by (simp add: push_def)
  show ?case
    by (simp add: d and_then_def Cons.IH[OF k]) (simp add: push_def)
qed

lemma drain_consumers:
  assumes "flow_queue s = map (\<lambda>i. (Function i None, [ev])) ids" "length ids \<le> fuel"
  shows "drain fuel s = Returns (s\<lparr>flow_queue := [], calls := calls s @ map (\<lambda>i. (i, [ev])) ids\<rparr>)"
  using assms
proof (induction ids arbitrary: s fuel)
  case Nil
  then show ?case by (cases fuel) (simp_all add: drain.simps)
next
  case (Cons i ids)
  then obtain k where k: "fuel = Suc k" "length ids \<le> k" by (cases fuel) auto
  let ?s1 = "s\<lparr>flow_queue := map (\<lambda>i. (Function i None, [ev])) ids, calls := calls s @ [(i, [ev])]\<rparr>"
  have "drain k ?s1 = Returns (?s1\<lparr>flow_queue := [], calls := calls ?s1 @ map (\<lambda>i. (i, [ev])) ids\<rparr>)"
    by (rule Cons.IH) (simp_all add: k)
  with Cons.prems(1) k show ?case
    by (simp add: drain.simps invoke.simps)
qed

lemma transform_error_consumers:
  assumes t: "Observable_transform this v s = (Inl e, s1)"
      and k: "kind (observables s this) = Stream"
      and l: "errListeners (observables s this) = map (\<lambda>i. Function i None) ids"
      and p: "parent (observables s this) = Null"
      and r: "\<not> flow_running s" and q: "flow_queue s = []"
      and f: "length ids \<le> fuel"
  shows "trigger fuel this v None s = Returns (s1\<lparr>calls := calls s1 @ map (\<lambda>i. (i, [e])) ids\<rparr>)"
proof -
  have fr: "s1 = s\<lparr>cells := cells s1\<rparr>"
    using transform_loop_frame[of "transforms (observables s this)" v s] t
    by (simp add: Observable_transform_def)
  then have o: "observables s1 = observables s" "flow_running s1 = flow_running s"
    "flow_queue s1 = flow_queue s"
    by (metis world.select_convs world.surjective world.update_convs(2))+
  let ?s2 = "s1\<lparr>flow_running := True\<rparr>"
  have w: "willUpdate fuel this e (Some (ErrListenersOf this)) ?s2
        = Returns (?s2\<lparr>flow_queue := map (\<lambda>i. (Function i None, [e])) ids\<rparr>)"
    using k l p q o defer_each_stream_plain[of ?s2 this fuel e ids]
    by (simp add: willUpdate_eq_spec willUpdate_spec_def makeEvent_def Let_def and_then_def)
  have d: "drain fuel (?s2\<lparr>flow_queue := map (\<lambda>i. (Function i None, [e])) ids\<rparr>)
        = Returns (?s2\<lparr>flow_queue := [], calls := calls s1 @ map (\<lambda>i. (i, [e])) ids\<rparr>)"
    using drain_consumers[of "?s2\<lparr>flow_queue := map (\<lambda>i. (Function i None, [e])) ids\<rparr>" e ids fuel] f
    by simp
  have fin: "s1\<lparr>flow_running := True, flow_queue := [], calls := calls s1 @ map (\<lambda>i. (i, [e])) ids,
                flow_running := False\<rparr>
           = s1\<lparr>calls := calls s1 @ map (\<lambda>i. (i, [e])) ids\<rparr>"
    using r q o by (cases s1) simp
  show ?thesis
  proof (cases "listeners (observables s this) = [] \<and> ids = []")
    case True
    with t l p o show ?thesis
      by (simp add: trigger.simps go.simps triggerErr.simps update.simps)
  next
    case False
    with t l p o r w d fin show ?thesis
      by (auto simp add: trigger.simps go.simps triggerErr.simps update.simps[of fuel this e] isRunning_def
          flow_run.simps)
  qed
qed

lemma defer_each_plain_listeners:
  assumes "kind (observables s this) = Stream" "\<forall>l\<in>set ls. plain_listener l"
  shows "defer_each fuel this ev ls s
           = Returns (s\<lparr>flow_queue := flow_queue s @ map (\<lambda>l. (l, [ev])) ls\<rparr>)"
  using assms
proof (induction ls arbitrary: s)
  case Nil
  then show ?case by simp
next
  case (Cons l ls)
  let ?s1 = "push l [ev] s"
  from Cons.prems(2) have pl: "truthy_cb l" "property l = None" by (simp_all add: plain_listener_def)
  have d: "defer_method this ev l s = Returns ?s1"
    using Cons.prems(1) pl by (simp add: defer_method_def defer_Stream_def)
  have k: "kind (observables ?s1 this) = Stream" using Cons.prems by (simp add: push_def)
  from Cons.prems(2) have r: "\<forall>l\<in>set ls. plain_listener l" by simp
  show ?case
    by (simp add: d pl and_then_def Cons.IH[OF k r]) (simp add: push_def)
qed

lemma willUpdate_error_round:
  assumes k: "kind (observables s this) = Stream"
      and l: "\<forall>l\<in>set (errListeners (observables s this)). plain_listener l"
      and p: "property (parent (observables s this)) = None"
  shows "willUpdate fuel this e (Some (ErrListenersOf this)) s
           = Returns (s\<lparr>flow_queue := flow_queue s @ error_round this e s\<rparr>)"
proof -
  let ?s2 = "s\<lparr>flow_queue := flow_queue s @ map (\<lambda>l. (l, [e])) (errListeners (observables s this))\<rparr>"
  have d: "defer_each fuel this e (errListeners (observables s this)) s = Returns ?s2"
    by (rule defer_each_plain_listeners[OF k l])
  have dp: "truthy_cb (parent (observables s this)) \<Longrightarrow>
        defer_method this e (parent (observables s this)) ?s2 = Returns (push (parent (observables s this)) [e] ?s2)"
    using k p by (simp add: defer_method_def defer_Stream_def)
  show ?thesis
    using k d dp
    by (simp add: willUpdate_eq_spec willUpdate_spec_def makeEvent_def Let_def and_then_def
        error_round_def push_def)
qed


lemma error_round_frame:
  "observables s' = observables s \<Longrightarrow> error_round this e s' = error_round this e s"
  by (simp add: error_round_def)

lemma error_round_fast_path:
  "errListeners (observables s this) = [] \<Longrightarrow> parent (observables s this) = Null
     \<Longrightarrow> error_round this e s = []"
  by (simp add: error_round_def)

lemma transform_error_round:
  assumes t: "Observable_transform this v s = (Inl e, s1)"
      and k: "kind (observables s this) = Stream"
      and l: "\<forall>l\<in>set (errListeners (observables s this)). plain_listener l"
      and p: "property (parent (observables s this)) = None"
  shows "s1 = s\<lparr>cells := cells s1\<rparr>"
    and "flow_running s \<Longrightarrow>
           trigger fuel this v None s
             = Returns (s1\<lparr>flow_queue := flow_queue s @ error_round this e s\<rparr>)"
    and "\<not> flow_running s \<Longrightarrow>
           trigger fuel this v None s =
             (if listeners (observables s this) = [] \<and> errListeners (observables s this) = []
                 \<and> parent (observables s this) = Null
              then Returns s1
              else case drain fuel (s1\<lparr>flow_running := True,
                                       flow_queue := flow_queue s @ error_round this e s\<rparr>) of
                     Returns s2 \<Rightarrow> Returns (s2\<lparr>flow_running := False\<rparr>)
                   | Throws x s2 \<Rightarrow> Throws x s2
                   | OutOfFuel \<Rightarrow> OutOfFuel)"
proof -
  show fr: "s1 = s\<lparr>cells := cells s1\<rparr>"
    using transform_loop_frame[of "transforms (observables s this)" v s] t
    by (simp add: Observable_transform_def)
  then have o: "observables s1 = observables s" "flow_running s1 = flow_running s"
    "flow_queue s1 = flow_queue s"
    by (metis world.select_convs world.surjective world.update_convs(2))+
  let ?fast = "listeners (observables s this) = [] \<and> errListeners (observables s this) = []
                 \<and> parent (observables s this) = Null"
  have tr: "trigger fuel this v None s =
              (if ?fast then Returns s1
               else if \<not> flow_running s
               then flow_run fuel (willUpdate fuel this e (Some (ErrListenersOf this))) s1
               else willUpdate fuel this e (Some (ErrListenersOf this)) s1)"
    using t o by (simp add: trigger.simps go.simps triggerErr.simps update.simps isRunning_def)
  have er: "error_round this e s1 = error_round this e s"
    by (rule error_round_frame) (rule o)
  have w: "willUpdate fuel this e (Some (ErrListenersOf this)) s1
             = Returns (s1\<lparr>flow_queue := flow_queue s @ error_round this e s\<rparr>)"
    using willUpdate_error_round[of s1 this fuel e] k l p o er by simp
  let ?s2 = "s1\<lparr>flow_running := True\<rparr>"
  have w2: "willUpdate fuel this e (Some (ErrListenersOf this)) ?s2
             = Returns (?s2\<lparr>flow_queue := flow_queue s @ error_round this e s\<rparr>)"
    using willUpdate_error_round[of ?s2 this fuel e] k l p o
      error_round_frame[of ?s2 s this e] by simp
  have fl: "flow_run fuel (willUpdate fuel this e (Some (ErrListenersOf this))) s1
              = (case drain fuel (s1\<lparr>flow_running := True,
                                       flow_queue := flow_queue s @ error_round this e s\<rparr>) of
                     Returns s2 \<Rightarrow> Returns (s2\<lparr>flow_running := False\<rparr>)
                   | Throws x s2 \<Rightarrow> Throws x s2
                   | OutOfFuel \<Rightarrow> OutOfFuel)"
    if r: "\<not> flow_running s"
    using r o w2 by (simp add: flow_run.simps)
  show "trigger fuel this v None s
             = Returns (s1\<lparr>flow_queue := flow_queue s @ error_round this e s\<rparr>)"
    if r: "flow_running s"
  proof (cases ?fast)
    case True
    then have "error_round this e s = []" by (simp add: error_round_fast_path)
    moreover have "s1\<lparr>flow_queue := flow_queue s\<rparr> = s1" using o by simp
    ultimately show ?thesis using True by (simp add: tr)
  next
    case False
    then have "trigger fuel this v None s = willUpdate fuel this e (Some (ErrListenersOf this)) s1"
      unfolding tr using r by (simp only: if_False if_True not_True_eq_False simp_thms)
    with w show ?thesis by simp
  qed
  show "trigger fuel this v None s =
             (if ?fast
              then Returns s1
              else case drain fuel (s1\<lparr>flow_running := True,
                                       flow_queue := flow_queue s @ error_round this e s\<rparr>) of
                     Returns s2 \<Rightarrow> Returns (s2\<lparr>flow_running := False\<rparr>)
                   | Throws x s2 \<Rightarrow> Throws x s2
                   | OutOfFuel \<Rightarrow> OutOfFuel)"
    if r: "\<not> flow_running s"
    unfolding tr fl[OF r] using r by (simp only: if_True simp_thms)
qed

lemma downstream_concrete:
  "calls_of (trigger 3 0 (JNum 1) None failing_downstream)
     = Some [(11, [JNum 1]), (21, [JError ''boom''])]"
  by (simp add: calls_of_def trigger.simps go.simps triggerErr.simps update.simps flow_run.simps
      drain.simps invoke.simps willUpdate.simps willUpdate_loop.simps Observable_transform_def
      makeEvent_def defer_method_def defer_Stream_def push_def isRunning_def Let_def arg0_def
      failing_downstream_def two_streams_def on_def onErr_def mapping_def transform_def
      makeListener_def makeErrListener_def
      new_Stream_def empty_world_def new_Observable_def throwing_def numeral_3_eq_3)




section \<open>Properties of the object core\<close>



lemma map_of_assign_same: "map_of (assign k v al) k = Some v"
  by (induction al) auto

lemma keys_assign: "fst ` set (assign k v al) = insert k (fst ` set al)"
proof (induction al)
  case Nil
  then show ?case by simp
next
  case (Cons a al)
  then show ?case by (cases a) (simp add: insert_commute)
qed

lemma hasOwnProperty_plain:
  "plain_hasOwnProperty sh \<Longrightarrow>
   hasOwnProperty conf sh k = Inr (k \<in> set (map fst (shell_own sh)))"
proof -
  assume "plain_hasOwnProperty sh"
  then have "''hasOwnProperty'' \<notin> fst ` set (shell_own sh)"
    "''hasOwnProperty'' \<notin> fst ` set (shell_inherited sh)"
    unfolding plain_hasOwnProperty_def by auto
  then have n: "(map_of (shell_inherited sh) ++ map_of (shell_own sh)) ''hasOwnProperty'' = None"
    by (simp add: map_add_None map_of_eq_None_iff)
  show ?thesis
    unfolding hasOwnProperty_def map_of_append n by simp
qed

lemma own_field:
  "map_of (shell_own sh) k = Some v \<Longrightarrow> k \<in> set (map fst (shell_own sh)) \<and> get_field sh k = v"
  by (auto simp: get_field_def map_add_Some_iff dest: map_of_SomeD intro: rev_image_eqI)

lemma classify_cases:
  "classify_spec v =
     (if v = VNull \<or> v = VUndefined then NP
      else if \<not> isF v \<and> \<not> isA v \<and> \<not> isO v then P
      else if isF v then FP else if isA v then AP else OP)"
  by (cases v) (simp_all add: isA_def)

lemma makeProp_result_own:
  assumes "plain_hasOwnProperty sh" "map_of (shell_own sh) k = Some v"
  shows "makeProp_result conf sh k st =
           (case v of
              VObject own' inh' \<Rightarrow> new_OP conf sh k st
            | _ \<Rightarrow> new_Property (classify_spec v) k st)"
  using own_field[OF assms(2)] hasOwnProperty_plain[OF assms(1), of conf k]
  by (cases v) (simp_all add: makeProp_result.simps isA_def)

lemma makeProp_own:
  assumes "\<not> noprop m" "\<not> (keyprops conf \<and> k \<in> set (keypropList conf))"
  shows "makeProp conf sh k None m st =
           (case makeProp_result conf sh k st of
              Throw e st1 \<Rightarrow> Throw e st1
            | Return result st1 \<Rightarrow>
                (if truthy_meta m \<and> registry conf
                 then Return result
                        (st1\<lparr>registry_calls := registry_calls st1 @
                           [(result, case m of Some (MetaArray ms) \<Rightarrow> ms
                                             | Some (MetaString s) \<Rightarrow> [s]
                                             | None \<Rightarrow> [])]\<rparr>)
                 else Return result st1))"
  using assms by (subst makeProp.simps) (auto split: outcome.splits)

lemma example_properties:
  "properties_of (prob protecting example_shell [])
     = Some [(''a'', Prop NP ''a'' [] None), (''b'', Prop P ''b'' [] None),
             (''c'', Prop FP ''c'' [] None), (''d'', Prop AP ''d'' [] None),
             (''e'', Prop OP ''e'' [] (Some (ObjectCore [] [])))]"
  by (simp add: properties_of_def prob_def example_shell_def protecting_def new_ObjectCore_def
      defValProp_pro_def prob_object.simps setup_loop.simps makeProp.simps makeProp_result.simps
      new_OP.simps new_Property_def hasOwnProperty_def get_field_def isA_def Let_def
      for_in_def hidden_def keys_in_order_def is_array_index_def is_digit_def)

lemma nesting_properties:
  "properties_of (prob protecting nesting_shell [])
     = Some [(''n'', Prop OP ''n'' [] (Some (ObjectCore [] [(''x'', Prop P ''x'' [] None)])))]"
  by (simp add: properties_of_def prob_def nesting_shell_def protecting_def new_ObjectCore_def
      defValProp_pro_def prob_object.simps setup_loop.simps makeProp.simps makeProp_result.simps
      new_OP.simps new_Property_def hasOwnProperty_def get_field_def isA_def Let_def
      for_in_def hidden_def keys_in_order_def is_array_index_def is_digit_def)





lemma new_Property_frame:
  assumes "new_Property kd k st = Return r st'"
  shows "core_meta (core st') = core_meta (core st) \<and>
     fst ` set (core_properties (core st')) = insert k (fst ` set (core_properties (core st)))"
proof -
  from assms have "st' = st\<lparr>core := ObjectCore (core_meta (core st))
                          (assign k (Prop kd k [] None) (core_properties (core st)))\<rparr>"
    by (simp add: new_Property_def Let_def)
  then show ?thesis by (simp add: keys_assign)
qed

lemma new_OP_frame:
  assumes "new_OP conf sh k st = Return r st'"
  shows "core_meta (core st') = core_meta (core st) \<and>
     fst ` set (core_properties (core st')) = insert k (fst ` set (core_properties (core st)))"
proof -
  from assms obtain p where "core st' = ObjectCore (core_meta (core st))
                          (assign k p (core_properties (core st)))"
    by (subst (asm) new_OP.simps) (simp split: jsval.splits outcome.splits, auto)
  then show ?thesis by (simp add: keys_assign)
qed

lemma makeProp_result_frame:
  assumes "makeProp_result conf sh k st = Return r st'"
  shows "core_meta (core st') = core_meta (core st) \<and>
         fst ` set (core_properties (core st)) \<subseteq> fst ` set (core_properties (core st')) \<and>
         (plain_hasOwnProperty sh \<and> k \<in> set (map fst (shell_own sh))
            \<longrightarrow> k \<in> fst ` set (core_properties (core st')))"
proof -
  obtain b where b: "hasOwnProperty conf sh k = Inr b"
    using assms by (subst (asm) makeProp_result.simps) (auto split: sum.splits)
  have pl: "b" if "plain_hasOwnProperty sh" "k \<in> set (map fst (shell_own sh))"
    using hasOwnProperty_plain[OF that(1), of conf k] that(2) b by simp
  have yes: "makeProp_result conf sh k st
               \<in> {new_Property NP k st, new_Property P k st, new_Property FP k st,
                  new_Property AP k st, new_OP conf sh k st}" if "b"
    using that by (subst makeProp_result.simps) (simp add: b)
  have no: "makeProp_result conf sh k st = Return None st" if "\<not> b"
    using that by (subst makeProp_result.simps) (simp add: b)
  show ?thesis
  proof (cases b)
    case True
    from yes[OF True] assms
    have "(\<exists>kd. new_Property kd k st = Return r st') \<or> new_OP conf sh k st = Return r st'"
      by auto
    then show ?thesis
      using new_Property_frame[of _ k st r st'] new_OP_frame[of conf sh k st r st'] by auto
  next
    case False
    with no assms pl show ?thesis by auto
  qed
qed

lemma makeProp_frame:
  assumes "makeProp conf sh k None m st = Return r st'"
  shows "core_meta (core st') = core_meta (core st) \<and>
         fst ` set (core_properties (core st)) \<subseteq> fst ` set (core_properties (core st')) \<and>
         (plain_hasOwnProperty sh \<and> k \<in> set (map fst (shell_own sh)) \<and> \<not> noprop m
            \<longrightarrow> k \<in> fst ` set (core_properties (core st')))"
proof (cases "noprop m")
  case True
  with assms show ?thesis by (subst (asm) makeProp.simps) auto
next
  case False
  with assms have nk: "\<not> (keyprops conf \<and> k \<in> set (keypropList conf))"
    by (subst (asm) makeProp.simps) (auto split: if_splits)
  from assms obtain r1 st1 where r: "makeProp_result conf sh k st = Return r1 st1"
    and s: "core st' = core st1"
    unfolding makeProp_own[OF False nk] by (auto split: outcome.splits if_splits)
  from makeProp_result_frame[OF r] s False show ?thesis by simp
qed

lemma setup_loop_frame:
  "setup_loop conf sh ks st = Return u st' \<Longrightarrow>
     core_meta (core st') = core_meta (core st) \<and>
     fst ` set (core_properties (core st)) \<subseteq> fst ` set (core_properties (core st')) \<and>
     (plain_hasOwnProperty sh \<longrightarrow>
        (\<forall>k\<in>set ks. k \<in> set (map fst (shell_own sh)) \<and> \<not> noprop (map_of (core_meta (core st)) k)
           \<longrightarrow> k \<in> fst ` set (core_properties (core st'))))"
proof (induction ks arbitrary: st)
  case Nil
  then show ?case by (simp add: setup_loop.simps)
next
  case (Cons k ks)
  from Cons.prems obtain r st1 where
    m: "makeProp conf sh k None (map_of (core_meta (core st)) k) st = Return r st1" and
    l: "setup_loop conf sh ks st1 = Return u st'"
    by (subst (asm) setup_loop.simps) (auto split: outcome.splits)
  from makeProp_frame[OF m] Cons.IH[OF l] show ?case
    by (auto simp: subset_iff)
qed

lemma setup_loop_append:
  "setup_loop conf sh (pre @ rest) st =
     (case setup_loop conf sh pre st of
        Throw e st1 \<Rightarrow> Throw e st1
      | Return u st1 \<Rightarrow> setup_loop conf sh rest st1)"
  by (induction pre arbitrary: st) (auto simp: setup_loop.simps split: outcome.splits)

lemma setup_loop_keyword:
  assumes "keyprops conf" "k \<in> set (keypropList conf)" "\<not> noprop (map_of (core_meta (core st)) k)"
  shows "setup_loop conf sh (k # post) st = Throw (Error (keyword_message k)) st"
  using assms by (simp add: setup_loop.simps makeProp.simps)

lemma setup_loop_throws:
  assumes "keyprops conf" "k \<in> set ks" "k \<in> set (keypropList conf)"
    "\<not> noprop (map_of (core_meta (core st)) k)"
  shows "\<exists>e st'. setup_loop conf sh ks st = Throw e st'"
proof -
  from assms(2) obtain pre post where ks: "ks = pre @ k # post"
    by (auto simp: in_set_conv_decomp)
  show ?thesis
  proof (cases "setup_loop conf sh pre st")
    case (Return u st1)
    from setup_loop_frame[OF Return] assms(4)
    have "\<not> noprop (map_of (core_meta (core st1)) k)" by simp
    from setup_loop_keyword[OF assms(1,3) this] Return show ?thesis
      by (simp add: ks setup_loop_append)
  next
    case (Throw e st1)
    then show ?thesis by (simp add: ks setup_loop_append)
  qed
qed

text \<open>
  C1 as stated fails. With keyword protection and the reserved word \<open>p\<close>,
  \<open>ProAct.prob({a: 1, p: 2, b: 3})\<close> throws the keyword error for \<open>p\<close>, and what it
  leaves is partially wired: the shell has its back-reference \<open>__pro__\<close>, and the core
  holds the property of \<open>a\<close>. And a reserved field name does not always make it fail:
  \<open>ProAct.prob({p: 2}, {p: 'noprop'})\<close> returns the object.
\<close>

theorem prob_keyword_not_all_or_nothing:
  "prob protecting reserved_shell []
     = Thrown (Error (keyword_message ''p''))
         \<lparr> shell_own = [(''a'', VNum 1), (''p'', VNum 2), (''b'', VNum 3)], shell_inherited = [],
           shell_pro = True \<rparr>
         \<lparr> core = ObjectCore [] [(''a'', Prop P ''a'' [] None)], registry_calls = [] \<rparr> \<and>
   prob protecting reserved_only_shell [(''p'', MetaString ''noprop'')]
     = ObjectItself
         \<lparr> shell_own = [(''p'', VNum 2)], shell_inherited = [], shell_pro = True \<rparr>
         \<lparr> core = ObjectCore [(''p'', MetaString ''noprop'')] [], registry_calls = [] \<rparr>"
  by (simp add: prob_def reserved_shell_def reserved_only_shell_def protecting_def new_ObjectCore_def
      defValProp_pro_def prob_object.simps setup_loop.simps makeProp.simps makeProp_result.simps
      new_Property_def hasOwnProperty_def get_field_def isA_def Let_def
      for_in_def hidden_def keys_in_order_def is_array_index_def is_digit_def)

text \<open>
  C1, amended. Let keyword protection be active. If the loop of \<open>setup\<close> visits a field
  whose name is in \<open>keypropList\<close> and which is not tagged \<open>noprop\<close> in the
  meta-data, then \<open>ProAct.prob\<close> throws and does not return the object, and the shell
  has its back-reference by then. If moreover \<open>k\<close> is such a field, and \<open>makeProp\<close>
  returns for the fields \<open>pre\<close> that the loop visits before \<open>k\<close>, then the error is
  the keyword error of \<open>k\<close>, and the core is left as it is after \<open>pre\<close>: when the
  shell keeps the \<open>hasOwnProperty\<close> of \<open>Object.prototype\<close>, every own field of
  \<open>pre\<close> that is not tagged \<open>noprop\<close> has its property there. An earlier field may
  throw another error before the reserved one is reached: with the reserved word
  \<open>p\<close>, \<open>ProAct.prob({hasOwnProperty: 1, p: 2})\<close> throws a \<open>TypeError\<close>.
\<close>

theorem prob_keyword_fatal:
  "(keyprops conf \<and>
    k \<in> set (for_in \<lparr>shell_own = own, shell_inherited = inherited, shell_pro = True\<rparr>) \<and>
    k \<in> set (keypropList conf) \<and> \<not> noprop (map_of m k) \<longrightarrow>
      (\<exists>e st. prob conf (VObject own inherited) m
                = Thrown e \<lparr>shell_own = own, shell_inherited = inherited, shell_pro = True\<rparr> st)) \<and>
   (keyprops conf \<and>
    for_in \<lparr>shell_own = own, shell_inherited = inherited, shell_pro = True\<rparr> = pre @ k # post \<and>
    k \<in> set (keypropList conf) \<and> \<not> noprop (map_of m k) \<and>
    setup_loop conf \<lparr>shell_own = own, shell_inherited = inherited, shell_pro = True\<rparr> pre
      \<lparr>core = new_ObjectCore m, registry_calls = []\<rparr> = Return () st1 \<longrightarrow>
      prob conf (VObject own inherited) m
        = Thrown (Error (keyword_message k))
            \<lparr>shell_own = own, shell_inherited = inherited, shell_pro = True\<rparr> st1 \<and>
      (plain_hasOwnProperty \<lparr>shell_own = own, shell_inherited = inherited, shell_pro = True\<rparr> \<longrightarrow>
         (\<forall>k'\<in>set pre. k' \<in> set (map fst own) \<and> \<not> noprop (map_of m k')
            \<longrightarrow> k' \<in> fst ` set (core_properties (core st1))))) \<and>
   prob protecting shadowing_shell []
     = Thrown TypeErr
         \<lparr>shell_own = [(''hasOwnProperty'', VNum 1), (''p'', VNum 2)], shell_inherited = [],
           shell_pro = True\<rparr>
         \<lparr>core = ObjectCore [] [], registry_calls = []\<rparr>"
proof -
  let ?raw = "\<lparr>shell_own = own, shell_inherited = inherited, shell_pro = False\<rparr>"
  let ?sh = "\<lparr>shell_own = own, shell_inherited = inherited, shell_pro = True\<rparr>"
  let ?init = "\<lparr>core = new_ObjectCore m, registry_calls = []\<rparr>"
  have sh: "defValProp_pro ?raw = ?sh" by (simp add: defValProp_pro_def)
  have m0: "core_meta (core ?init) = m" by (simp add: new_ObjectCore_def)
  have po: "prob_object conf own inherited m [] = setup_loop conf ?sh (for_in ?sh) ?init"
    by (simp add: prob_object.simps sh)
  have pr: "prob conf (VObject own inherited) m =
              (case setup_loop conf ?sh (for_in ?sh) ?init of
                 Throw e st \<Rightarrow> Thrown e ?sh st | Return u st \<Rightarrow> ObjectItself ?sh st)"
    by (simp add: prob_def po sh split: outcome.split)
  have a: "\<exists>e st. prob conf (VObject own inherited) m = Thrown e ?sh st"
    if "keyprops conf" "k \<in> set (for_in ?sh)" "k \<in> set (keypropList conf)" "\<not> noprop (map_of m k)"
  proof -
    from setup_loop_throws[OF that(1,2,3), of ?init ?sh] that(4) m0
    obtain e st where "setup_loop conf ?sh (for_in ?sh) ?init = Throw e st" by auto
    then show ?thesis by (simp add: pr)
  qed
  have b: "prob conf (VObject own inherited) m = Thrown (Error (keyword_message k)) ?sh st1 \<and>
      (plain_hasOwnProperty ?sh \<longrightarrow>
         (\<forall>k'\<in>set pre. k' \<in> set (map fst own) \<and> \<not> noprop (map_of m k')
            \<longrightarrow> k' \<in> fst ` set (core_properties (core st1))))"
    if "keyprops conf" "for_in ?sh = pre @ k # post" "k \<in> set (keypropList conf)"
       "\<not> noprop (map_of m k)" "setup_loop conf ?sh pre ?init = Return () st1"
  proof -
    note fr = setup_loop_frame[OF that(5)]
    from fr m0 that(4) have "\<not> noprop (map_of (core_meta (core st1)) k)" by simp
    from setup_loop_keyword[OF that(1,3) this, of ?sh post]
    have "setup_loop conf ?sh (for_in ?sh) ?init = Throw (Error (keyword_message k)) st1"
      by (simp add: that(2,5) setup_loop_append)
    then have "prob conf (VObject own inherited) m = Thrown (Error (keyword_message k)) ?sh st1"
      by (simp add: pr)
    with fr m0 show ?thesis by simp
  qed
  have c: "prob protecting shadowing_shell []
     = Thrown TypeErr
         \<lparr>shell_own = [(''hasOwnProperty'', VNum 1), (''p'', VNum 2)], shell_inherited = [],
           shell_pro = True\<rparr>
         \<lparr>core = ObjectCore [] [], registry_calls = []\<rparr>"
    by (simp add: prob_def shadowing_shell_def protecting_def new_ObjectCore_def
      defValProp_pro_def prob_object.simps setup_loop.simps makeProp.simps makeProp_result.simps
      hasOwnProperty_def Let_def
      for_in_def hidden_def keys_in_order_def is_array_index_def is_digit_def)
  from a b c show ?thesis by blast
qed

theorem prob_keyword_fatal_witness:
  "keyprops protecting \<and> ''p'' \<in> set (keypropList protecting) \<and> \<not> noprop (map_of [] ''p'') \<and>
   for_in \<lparr>shell_own = [(''a'', VNum 1), (''p'', VNum 2), (''b'', VNum 3)], shell_inherited = [],
            shell_pro = True\<rparr> = [''a''] @ ''p'' # [''b''] \<and>
   setup_loop protecting
     \<lparr>shell_own = [(''a'', VNum 1), (''p'', VNum 2), (''b'', VNum 3)], shell_inherited = [],
       shell_pro = True\<rparr> [''a''] \<lparr>core = new_ObjectCore [], registry_calls = []\<rparr>
     = Return () \<lparr>core = ObjectCore [] [(''a'', Prop P ''a'' [] None)], registry_calls = []\<rparr> \<and>
   prob protecting reserved_shell []
     = Thrown (Error (keyword_message ''p''))
         \<lparr>shell_own = [(''a'', VNum 1), (''p'', VNum 2), (''b'', VNum 3)], shell_inherited = [],
           shell_pro = True\<rparr>
         \<lparr>core = ObjectCore [] [(''a'', Prop P ''a'' [] None)], registry_calls = []\<rparr> \<and>
   ''a'' \<in> fst ` set (core_properties (core
            \<lparr>core = ObjectCore [] [(''a'', Prop P ''a'' [] None)], registry_calls = []\<rparr>))"
proof -
  let ?own = "[(''a'', VNum 1), (''p'', VNum 2), (''b'', VNum 3)]"
  have h: "keyprops protecting" "''p'' \<in> set (keypropList protecting)" "\<not> noprop (map_of [] ''p'')"
    "for_in \<lparr>shell_own = ?own, shell_inherited = [], shell_pro = True\<rparr> = [''a''] @ ''p'' # [''b'']"
    "setup_loop protecting \<lparr>shell_own = ?own, shell_inherited = [], shell_pro = True\<rparr> [''a'']
       \<lparr>core = new_ObjectCore [], registry_calls = []\<rparr>
     = Return () \<lparr>core = ObjectCore [] [(''a'', Prop P ''a'' [] None)], registry_calls = []\<rparr>"
    "plain_hasOwnProperty \<lparr>shell_own = ?own, shell_inherited = [], shell_pro = True\<rparr>"
    by (simp_all add: protecting_def new_ObjectCore_def plain_hasOwnProperty_def
      setup_loop.simps makeProp.simps makeProp_result.simps
      new_Property_def hasOwnProperty_def get_field_def isA_def Let_def
      for_in_def hidden_def keys_in_order_def is_array_index_def is_digit_def)
  from prob_keyword_fatal [of protecting "''p''" ?own "[]" "[]" "[''a'']" "[''b'']"
         "\<lparr>core = ObjectCore [] [(''a'', Prop P ''a'' [] None)], registry_calls = []\<rparr>"] h
  have "prob protecting (VObject ?own []) []
     = Thrown (Error (keyword_message ''p''))
         \<lparr>shell_own = ?own, shell_inherited = [], shell_pro = True\<rparr>
         \<lparr>core = ObjectCore [] [(''a'', Prop P ''a'' [] None)], registry_calls = []\<rparr>"
    by blast
  with h show ?thesis by (simp add: reserved_shell_def)
qed

end
